theory Spec2Isabelle
  imports
    Complex_Main
    "HOL-Library.Multiset"
    "HOL-Library.Sublist"
    "HOL-Library.Char_ord"
    "HOL-Library.List_Lexorder"
    "HOL-Library.Log_Nat"
begin

section \<open>Configuration\<close>

text \<open>
  The constants of the table (section 1 of the single-file version of the application,
  imported from \<^verbatim>\<open>utils/tableUtils\<close> by the hooks and components).
\<close>

definition TOTAL_ROWS :: nat where
  "TOTAL_ROWS = 10000"

definition INITIAL_LOAD_COUNT :: nat where
  "INITIAL_LOAD_COUNT = 500"

definition CHUNK_SIZE :: nat where
  "CHUNK_SIZE = 500"

definition RowHeight :: real where
  "RowHeight = 60"

definition LIST_HEIGHT :: real where
  "LIST_HEIGHT = 700"

section \<open>Numbers\<close>

text \<open>
  A JavaScript number is an IEEE 754 binary64 value: a finite double, an infinity or NaN.
  A finite double is given by its real value; zero is unsigned here (the results computed
  below are the same for \<open>-0\<close> and \<open>0\<close>, except as a divisor).
\<close>

datatype number = Finite real | PosInfinity | NegInfinity | NaN

text \<open>Rounding to the nearest integer, a tie going to the even one.\<close>

definition round_half_even :: "real \<Rightarrow> int" where
  "round_half_even t =
     (let f = \<lfloor>t\<rfloor>; d = t - of_int f
      in if d < 1 / 2 then f else if 1 / 2 < d then f + 1 else if even f then f else f + 1)"

text \<open>
  The binary exponent of a positive real \<open>x\<close>: the \<open>e\<close> with \<open>2^e \<le> x < 2^(e+1)\<close>,
  computed from the bit length of an integer.
\<close>

definition floor_log2 :: "real \<Rightarrow> int" where
  "floor_log2 x =
     (if 1 \<le> x then bitlen \<lfloor>x\<rfloor> - 1 else - bitlen (\<lceil>1 / x\<rceil> - 1))"

text \<open>
  The spacing of the doubles around \<open>x\<close>: 52 bits below the exponent of \<open>x\<close>, and
  \<open>2^-1074\<close> in the subnormal range.
\<close>

definition ulp :: "real \<Rightarrow> real" where
  "ulp x = 2 powi (max (floor_log2 \<bar>x\<bar>) (- 1022) - 52)"

definition nearest :: "real \<Rightarrow> real" where
  "nearest x = ulp x * of_int (round_half_even (x / ulp x))"

text \<open>
  The result of an arithmetic operation whose exact value is \<open>x\<close>: the nearest double,
  ties to even, and an infinity when that is beyond the largest double.
\<close>

definition round_to_double :: "real \<Rightarrow> number" where
  "round_to_double x =
     (let y = nearest x
      in if 2 powi 1024 \<le> y then PosInfinity
         else if y \<le> - (2 powi 1024) then NegInfinity
         else Finite y)"

text \<open>The reals that are values of finite doubles.\<close>

definition is_double :: "real \<Rightarrow> bool" where
  "is_double x \<longleftrightarrow> round_to_double x = Finite x"

text \<open>The operator \<^verbatim>\<open><=\<close> on numbers; every comparison with NaN is false.\<close>

fun number_le :: "number \<Rightarrow> number \<Rightarrow> bool" where
  "number_le NaN b = False"
| "number_le a NaN = False"
| "number_le NegInfinity b = True"
| "number_le a PosInfinity = True"
| "number_le (Finite x) (Finite y) = (x \<le> y)"
| "number_le a b = False"

text \<open>The arithmetic operators \<^verbatim>\<open>-x\<close>, \<^verbatim>\<open>+\<close>, \<^verbatim>\<open>-\<close>, \<^verbatim>\<open>*\<close> and \<^verbatim>\<open>/\<close>.\<close>

fun js_neg :: "number \<Rightarrow> number" where
  "js_neg (Finite x) = Finite (- x)"
| "js_neg PosInfinity = NegInfinity"
| "js_neg NegInfinity = PosInfinity"
| "js_neg NaN = NaN"

fun js_add :: "number \<Rightarrow> number \<Rightarrow> number" where
  "js_add (Finite x) (Finite y) = round_to_double (x + y)"
| "js_add NaN b = NaN"
| "js_add a NaN = NaN"
| "js_add PosInfinity NegInfinity = NaN"
| "js_add NegInfinity PosInfinity = NaN"
| "js_add PosInfinity b = PosInfinity"
| "js_add a PosInfinity = PosInfinity"
| "js_add NegInfinity b = NegInfinity"
| "js_add a NegInfinity = NegInfinity"

definition js_sub :: "number \<Rightarrow> number \<Rightarrow> number" where
  "js_sub a b = js_add a (js_neg b)"

fun js_mul :: "number \<Rightarrow> number \<Rightarrow> number" where
  "js_mul (Finite x) (Finite y) = round_to_double (x * y)"
| "js_mul NaN b = NaN"
| "js_mul a NaN = NaN"
| "js_mul (Finite x) b = (if x = 0 then NaN else if 0 < x then b else js_neg b)"
| "js_mul a (Finite y) = (if y = 0 then NaN else if 0 < y then a else js_neg a)"
| "js_mul PosInfinity b = b"
| "js_mul NegInfinity b = js_neg b"

fun js_div :: "number \<Rightarrow> number \<Rightarrow> number" where
  "js_div (Finite x) (Finite y) =
     (if y = 0 then (if x = 0 then NaN else if 0 < x then PosInfinity else NegInfinity)
      else round_to_double (x / y))"
| "js_div NaN b = NaN"
| "js_div a NaN = NaN"
| "js_div (Finite x) b = Finite 0"
| "js_div a (Finite y) = (if 0 \<le> y then a else js_neg a)"
| "js_div a b = NaN"

text \<open>\<^verbatim>\<open>Math.floor\<close>, \<^verbatim>\<open>Math.ceil\<close>, \<^verbatim>\<open>Math.max\<close> and \<^verbatim>\<open>Math.min\<close>.\<close>

fun Math_floor :: "number \<Rightarrow> number" where
  "Math_floor (Finite x) = Finite (of_int \<lfloor>x\<rfloor>)"
| "Math_floor a = a"

fun Math_ceil :: "number \<Rightarrow> number" where
  "Math_ceil (Finite x) = Finite (of_int \<lceil>x\<rceil>)"
| "Math_ceil a = a"

definition Math_max :: "number \<Rightarrow> number \<Rightarrow> number" where
  "Math_max a b = (if a = NaN \<or> b = NaN then NaN else if number_le a b then b else a)"

definition Math_min :: "number \<Rightarrow> number \<Rightarrow> number" where
  "Math_min a b = (if a = NaN \<or> b = NaN then NaN else if number_le a b then a else b)"

section \<open>Arrays\<close>

text \<open>
  \<^verbatim>\<open>Array.prototype.slice(start, end)\<close> for integral arguments: a negative index counts
  from the end of the array, every index is clamped into \<open>0 .. length\<close>, and a range whose
  end is not beyond its start is empty. It never throws.
\<close>

definition slice_index :: "nat \<Rightarrow> int \<Rightarrow> nat" where
  "slice_index len i = (if i < 0 then nat (max (int len + i) 0) else nat (min i (int len)))"

definition js_slice :: "'a list \<Rightarrow> int \<Rightarrow> int \<Rightarrow> 'a list" where
  "js_slice xs start fin =
     (let k = slice_index (length xs) start;
          final = slice_index (length xs) fin
      in take (final - k) (drop k xs))"

text \<open>
  The integer \<^verbatim>\<open>slice\<close> makes of a number given as an index: the number truncated
  towards zero, 0 for NaN. An infinite index is clamped like any index beyond the length
  of the array, so it is replaced by the length, with its sign.
\<close>

fun relative_index :: "nat \<Rightarrow> number \<Rightarrow> int" where
  "relative_index len (Finite x) = (if 0 \<le> x then \<lfloor>x\<rfloor> else \<lceil>x\<rceil>)"
| "relative_index len PosInfinity = int len"
| "relative_index len NegInfinity = - int len"
| "relative_index len NaN = 0"

section \<open>The windowing hook\<close>

text \<open>
  \<^verbatim>\<open>useVirtualizedList(items, listHeight, rowHeight, overscanCount = 5)\<close>. The hook keeps
  one piece of state, \<open>scrollOffset\<close> (the last \<^verbatim>\<open>scrollTop\<close> reported by a scroll event,
  initially 0); it is a parameter here. The arguments are finite numbers, given by their
  real values, and every operation on them is the operation on doubles, with its rounding.
\<close>

definition totalHeight_of :: "'a list \<Rightarrow> real \<Rightarrow> number" where
  "totalHeight_of items rowHeight = js_mul (Finite (real (length items))) (Finite rowHeight)"

definition startIndex_of :: "real \<Rightarrow> real \<Rightarrow> int \<Rightarrow> number" where
  "startIndex_of scrollOffset rowHeight overscanCount =
     Math_max (Finite 0)
       (js_sub (Math_floor (js_div (Finite scrollOffset) (Finite rowHeight)))
          (Finite (of_int overscanCount)))"

definition endIndex_of :: "'a list \<Rightarrow> real \<Rightarrow> real \<Rightarrow> real \<Rightarrow> int \<Rightarrow> number" where
  "endIndex_of items scrollOffset listHeight rowHeight overscanCount =
     Math_min (Finite (real (length items)))
       (js_add (Math_ceil (js_div (js_add (Finite scrollOffset) (Finite listHeight))
                             (Finite rowHeight)))
          (Finite (of_int overscanCount)))"

text \<open>
  The object the hook returns (without the \<^verbatim>\<open>onScroll\<close> callback); of each style object
  the one computed entry is kept: the height of the container, the height of the content
  spacer and the vertical translation of the rendered block, all in pixels.
\<close>

record 'a virtualized_list =
  visibleItems :: "'a list"
  startIndex :: number
  containerStyle_height :: real
  contentStyle_height :: number
  listStyle_translateY :: number
  totalHeight :: number

definition useVirtualizedList ::
  "'a list \<Rightarrow> real \<Rightarrow> real \<Rightarrow> int \<Rightarrow> real \<Rightarrow> 'a virtualized_list" where
  "useVirtualizedList items listHeight rowHeight overscanCount scrollOffset =
     (let totalHeight = totalHeight_of items rowHeight;
          startIndex = startIndex_of scrollOffset rowHeight overscanCount;
          endIndex = endIndex_of items scrollOffset listHeight rowHeight overscanCount
      in \<lparr> visibleItems = js_slice items (relative_index (length items) startIndex)
                             (relative_index (length items) endIndex),
           startIndex = startIndex,
           containerStyle_height = LIST_HEIGHT,
           contentStyle_height = totalHeight,
           listStyle_translateY = js_mul startIndex (Finite rowHeight),
           totalHeight = totalHeight \<rparr>)"

section \<open>Records and the data generator\<close>

text \<open>
  A row of the table: \<^verbatim>\<open>{ id, name, numericValue, status }\<close>. The numbers of a row are
  integers; strings are sequences of code units below 256, which covers every string the
  application generates.
\<close>

record row =
  id_field :: int
  name :: string
  numericValue :: int
  status :: string

text \<open>\<^verbatim>\<open>Number.prototype.toString()\<close> of an integer: its decimal digits, with a sign.\<close>

definition digit_char :: "nat \<Rightarrow> char" where
  "digit_char d = ''0123456789'' ! d"

fun digits :: "nat \<Rightarrow> string" where
  "digits n = (if n < 10 then [digit_char n] else digits (n div 10) @ [digit_char (n mod 10)])"

declare digits.simps [simp del]

definition toString :: "int \<Rightarrow> string" where
  "toString i = (if i < 0 then CHR ''-'' # digits (nat (- i)) else digits (nat i))"

text \<open>
  \<^verbatim>\<open>generateData(count)\<close>. The \<open>i\<close>-th iteration of the loop draws one value from
  \<^verbatim>\<open>Math.random()\<close>; the sequence of draws is the parameter \<open>random\<close>. The rows are
  pushed in the order of \<open>i\<close>, from 1 to the count \<open>cnt\<close>.
\<close>

definition make_row :: "(nat \<Rightarrow> real) \<Rightarrow> nat \<Rightarrow> row" where
  "make_row random i =
     \<lparr> id_field = int i,
       name = ''Item Name '' @ toString (int i),
       numericValue = \<lfloor>random i * 100000\<rfloor>,
       status = (if i mod 5 = 0 then ''Active''
                 else if i mod 3 = 0 then ''Pending'' else ''Completed'') \<rparr>"

function generateData_loop :: "(nat \<Rightarrow> real) \<Rightarrow> nat \<Rightarrow> nat \<Rightarrow> row list \<Rightarrow> row list" where
  "generateData_loop random cnt i acc =
     (if i \<le> cnt then generateData_loop random cnt (Suc i) (acc @ [make_row random i])
      else acc)"
  by pat_completeness auto
termination
  by (relation "measure (\<lambda>(random, cnt, i, acc). Suc cnt - i)") auto

declare generateData_loop.simps [simp del]

definition generateData :: "(nat \<Rightarrow> real) \<Rightarrow> nat \<Rightarrow> row list" where
  "generateData random cnt = generateData_loop random cnt 1 []"

definition initialFullData :: "(nat \<Rightarrow> real) \<Rightarrow> row list" where
  "initialFullData random = generateData random TOTAL_ROWS"

section \<open>Sorting\<close>

text \<open>
  The sort column and direction held by the table component. \<^verbatim>\<open>handleSort\<close> is called
  with \<^verbatim>\<open>'id'\<close>, \<^verbatim>\<open>'name'\<close> or \<^verbatim>\<open>'numericValue'\<close> only.
\<close>

datatype sort_key = Id | Name | NumericValue

datatype direction = Asc | Desc

datatype js_value = Num int | Str string

text \<open>The property read \<^verbatim>\<open>a[sortBy]\<close>.\<close>

fun row_prop :: "row \<Rightarrow> sort_key \<Rightarrow> js_value" where
  "row_prop a Id = Num (id_field a)"
| "row_prop a Name = Str (name a)"
| "row_prop a NumericValue = Num (numericValue a)"

text \<open>
  The operator \<^verbatim>\<open><\<close> on two numbers and on two strings (code unit by code unit, a proper
  prefix first). The two operands of the comparator are always the same property of two
  rows, so a number is never compared with a string; \<^verbatim>\<open>Number(x)\<close> of a number is the
  number itself.
\<close>

fun js_less :: "js_value \<Rightarrow> js_value \<Rightarrow> bool" where
  "js_less (Num x) (Num y) = (x < y)"
| "js_less (Str s) (Str t) = (s < t)"
| "js_less _ _ = False"

definition compare_rows :: "sort_key \<Rightarrow> direction \<Rightarrow> row \<Rightarrow> row \<Rightarrow> int" where
  "compare_rows sortBy sortDirection a b =
     (let aValue = row_prop a sortBy; bValue = row_prop b sortBy
      in if js_less aValue bValue then (if sortDirection = Asc then - 1 else 1)
         else if js_less bValue aValue then (if sortDirection = Asc then 1 else - 1)
         else 0)"

text \<open>
  \<^verbatim>\<open>Array.prototype.sort(compareFn)\<close> is a stable sort: the result is ordered by the
  comparator and elements that compare equal keep their relative order. The result is
  computed here by insertion from the right, an element going in front of the first
  element it does not compare greater than.
\<close>

fun insert_by :: "('a \<Rightarrow> 'a \<Rightarrow> int) \<Rightarrow> 'a \<Rightarrow> 'a list \<Rightarrow> 'a list" where
  "insert_by compareFn x [] = [x]"
| "insert_by compareFn x (y # ys) =
     (if compareFn x y \<le> 0 then x # y # ys else y # insert_by compareFn x ys)"

fun js_sort :: "('a \<Rightarrow> 'a \<Rightarrow> int) \<Rightarrow> 'a list \<Rightarrow> 'a list" where
  "js_sort compareFn [] = []"
| "js_sort compareFn (x # xs) = insert_by compareFn x (js_sort compareFn xs)"

definition sortedData :: "row list \<Rightarrow> sort_key \<Rightarrow> direction \<Rightarrow> row list" where
  "sortedData data sortBy sortDirection =
     (if length data = 0 then []
      else js_sort (compare_rows sortBy sortDirection) data)"

section \<open>Filtering\<close>

text \<open>
  \<^verbatim>\<open>String.prototype.toLowerCase()\<close> on code units below 256: the letters A to Z and the
  accented capitals (all of 192 to 222 but the multiplication sign 215) move up by 32.
\<close>

definition toLowerCase_char :: "char \<Rightarrow> char" where
  "toLowerCase_char c =
     (let n = of_char c :: nat
      in if (65 \<le> n \<and> n \<le> 90) \<or> (192 \<le> n \<and> n \<le> 222 \<and> n \<noteq> 215)
         then char_of (n + 32) else c)"

definition toLowerCase :: "string \<Rightarrow> string" where
  "toLowerCase s = map toLowerCase_char s"

text \<open>\<^verbatim>\<open>String.prototype.includes(needle)\<close>: the needle starts at some position.\<close>

fun js_includes :: "string \<Rightarrow> string \<Rightarrow> bool" where
  "js_includes [] needle = (needle = [])"
| "js_includes (c # cs) needle = (prefix needle (c # cs) \<or> js_includes cs needle)"

definition matches :: "string \<Rightarrow> row \<Rightarrow> bool" where
  "matches lowerCaseFilter item \<longleftrightarrow>
     js_includes (toString (id_field item)) lowerCaseFilter
     \<or> js_includes (toLowerCase (name item)) lowerCaseFilter
     \<or> js_includes (toLowerCase (status item)) lowerCaseFilter"

definition filteredAndSortedData :: "row list \<Rightarrow> string \<Rightarrow> row list" where
  "filteredAndSortedData sortedRows debouncedFilter =
     (if debouncedFilter = [] then sortedRows
      else let lowerCaseFilter = toLowerCase debouncedFilter
           in filter (matches lowerCaseFilter) sortedRows)"

section \<open>The paginated data source\<close>

text \<open>
  The state of \<^verbatim>\<open>useDataFetching\<close>: the three state variables, the counter kept in the
  ref \<^verbatim>\<open>loadedCount\<close>, the number of calls of \<^verbatim>\<open>fetchMoreData\<close> that are suspended
  at their \<^verbatim>\<open>await\<close>, waiting for the timer, and the values of \<^verbatim>\<open>isLoading\<close> and
  \<^verbatim>\<open>hasMore\<close> that the current \<^verbatim>\<open>fetchMoreData\<close> callback has captured: those of
  the render that created it.
\<close>

record fetching =
  data :: "row list"
  isLoading :: bool
  hasMore :: bool
  loadedCount :: nat
  awaiting :: nat
  captured_isLoading :: bool
  captured_hasMore :: bool

definition useDataFetching :: "(nat \<Rightarrow> real) \<Rightarrow> fetching" where
  "useDataFetching random =
     \<lparr> data = js_slice (initialFullData random) 0 (int INITIAL_LOAD_COUNT),
       isLoading = False,
       hasMore = (TOTAL_ROWS > INITIAL_LOAD_COUNT),
       loadedCount = INITIAL_LOAD_COUNT,
       awaiting = 0,
       captured_isLoading = False,
       captured_hasMore = (TOTAL_ROWS > INITIAL_LOAD_COUNT) \<rparr>"

text \<open>
  A render of the component: \<^verbatim>\<open>useCallback\<close> with the dependencies
  \<^verbatim>\<open>[isLoading, hasMore]\<close> hands out a callback that has captured the current values.
\<close>

definition render :: "fetching \<Rightarrow> fetching" where
  "render st = st\<lparr>captured_isLoading := isLoading st, captured_hasMore := hasMore st\<rparr>"

text \<open>
  \<^verbatim>\<open>fetchMoreData\<close> up to its \<^verbatim>\<open>await\<close>. The guard reads the \<^verbatim>\<open>isLoading\<close> and
  \<^verbatim>\<open>hasMore\<close> captured by the callback, not the state of the moment.
\<close>

definition fetchMoreData :: "fetching \<Rightarrow> fetching" where
  "fetchMoreData st =
     (if captured_isLoading st \<or> \<not> captured_hasMore st then st
      else st\<lparr>isLoading := True, awaiting := awaiting st + 1\<rparr>)"

text \<open>
  The rest of \<^verbatim>\<open>fetchMoreData\<close>, run when the timer of a suspended call fires. It reads
  the ref and appends with a functional update, so it works on the state of that moment.
  A timer fires only for a suspended call; with none suspended the state stays as it is.
\<close>

definition fetchMoreData_resume :: "(nat \<Rightarrow> real) \<Rightarrow> fetching \<Rightarrow> fetching" where
  "fetchMoreData_resume random st =
     (if awaiting st = 0 then st
      else
        let nextData = js_slice (initialFullData random)
                         (int (loadedCount st)) (int (loadedCount st + CHUNK_SIZE));
            st' = (if length nextData > 0
                   then st\<lparr>data := data st @ nextData,
                           loadedCount := loadedCount st + length nextData,
                           hasMore := (loadedCount st + length nextData < TOTAL_ROWS)\<rparr>
                   else st\<lparr>hasMore := False\<rparr>)
        in st'\<lparr>isLoading := False, awaiting := awaiting st - 1\<rparr>)"

text \<open>
  What can happen to the data source: React renders the component, a load request is made
  (a call of the current \<^verbatim>\<open>fetchMoreData\<close> callback), the timer of a suspended call
  fires. A completed load request is a request made through the callback of an up-to-date
  render, followed by its timer and the render that the state changes bring about.
\<close>

datatype event = Render | LoadRequest | TimerFired

fun step :: "(nat \<Rightarrow> real) \<Rightarrow> fetching \<Rightarrow> event \<Rightarrow> fetching" where
  "step random st Render = render st"
| "step random st LoadRequest = fetchMoreData st"
| "step random st TimerFired = fetchMoreData_resume random st"

definition run :: "(nat \<Rightarrow> real) \<Rightarrow> event list \<Rightarrow> fetching" where
  "run random es = foldl (step random) (useDataFetching random) es"

definition load :: "(nat \<Rightarrow> real) \<Rightarrow> fetching \<Rightarrow> fetching" where
  "load random st = render (fetchMoreData_resume random (fetchMoreData (render st)))"

section \<open>Properties of rounding\<close>

text \<open>
  Rounding to the nearest double is monotone, exact on the integers up to \<open>2^53\<close>, and,
  for a quotient of two such integers, it moves neither the floor nor the ceiling.
\<close>

lemma floor_log2_ge1:
  assumes "1 \<le> x"
  shows "2 powi floor_log2 x \<le> x \<and> x < 2 powi (floor_log2 x + 1)"
proof -
  define m where "m = \<lfloor>x\<rfloor>"
  have m: "0 < m" "of_int m \<le> x" "x < of_int m + 1"
    using assms unfolding m_def by linarith+
  have b: "2 ^ nat (bitlen m - 1) \<le> m" "m < 2 ^ nat (bitlen m)"
    using bitlen_bounds [OF m(1)] by simp_all
  have pos: "1 \<le> bitlen m"
    using m(1) bitlen_eq_zero_iff [of m] bitlen_nonneg [of m] by linarith
  have e: "floor_log2 x = bitlen m - 1"
    using assms by (simp add: floor_log2_def m_def)
  have "(2::real) powi (bitlen m - 1) = 2 ^ nat (bitlen m - 1)"
    using pos by (simp add: power_int_nonneg_exp)
  also have "\<dots> = of_int (2 ^ nat (bitlen m - 1))"
    by simp
  also have "\<dots> \<le> of_int m"
    using b(1) by (simp only: of_int_le_iff)
  finally have lower: "2 powi (bitlen m - 1) \<le> x"
    using m(2) by linarith
  have "m + 1 \<le> 2 ^ nat (bitlen m)"
    using b(2) by linarith
  then have "of_int (m + 1) \<le> (of_int (2 ^ nat (bitlen m)) :: real)"
    by (simp only: of_int_le_iff)
  then have "of_int m + 1 \<le> (2::real) ^ nat (bitlen m)"
    by simp
  also have "\<dots> = 2 powi (bitlen m)"
    using pos by (simp add: power_int_nonneg_exp)
  finally have upper: "x < 2 powi (bitlen m)"
    using m(3) by linarith
  show ?thesis
    using lower upper by (simp add: e)
qed

lemma floor_log2_lt1:
  assumes "0 < x" and "x < 1"
  shows "2 powi floor_log2 x \<le> x \<and> x < 2 powi (floor_log2 x + 1)"
proof -
  define k where "k = \<lceil>1 / x\<rceil> - 1"
  have inv: "1 < 1 / x"
    using assms by simp
  have k: "0 < k" "of_int k < 1 / x" "1 / x \<le> of_int k + 1"
    using inv unfolding k_def by linarith+
  have b: "2 ^ nat (bitlen k - 1) \<le> k" "k < 2 ^ nat (bitlen k)"
    using bitlen_bounds [OF k(1)] by simp_all
  have pos: "1 \<le> bitlen k"
    using k(1) bitlen_eq_zero_iff [of k] bitlen_nonneg [of k] by linarith
  have e: "floor_log2 x = - bitlen k"
    using assms by (simp add: floor_log2_def k_def)
  have "k + 1 \<le> 2 ^ nat (bitlen k)"
    using b(2) by linarith
  then have "of_int (k + 1) \<le> (of_int (2 ^ nat (bitlen k)) :: real)"
    by (simp only: of_int_le_iff)
  then have "1 / x \<le> (2::real) ^ nat (bitlen k)"
    using k(3) by simp
  then have "1 / (2::real) ^ nat (bitlen k) \<le> x"
    using assms(1) by (simp add: field_simps)
  moreover have "(2::real) powi (- bitlen k) = 1 / 2 ^ nat (bitlen k)"
    using pos by (simp add: power_int_minus power_int_nonneg_exp field_simps)
  ultimately have lower: "2 powi (- bitlen k) \<le> x"
    by simp
  have "(of_int (2 ^ nat (bitlen k - 1)) :: real) \<le> of_int k"
    using b(1) by (simp only: of_int_le_iff)
  then have "(2::real) ^ nat (bitlen k - 1) \<le> of_int k"
    by simp
  then have "(2::real) ^ nat (bitlen k - 1) < 1 / x"
    using k(2) by linarith
  then have "x < 1 / (2::real) ^ nat (bitlen k - 1)"
    using assms(1) by (simp add: field_simps)
  moreover have "(2::real) powi (- bitlen k + 1) = 1 / 2 ^ nat (bitlen k - 1)"
  proof -
    have "(2::real) powi (- bitlen k + 1) = 2 powi (- (bitlen k - 1))"
      by simp
    also have "\<dots> = inverse (2 powi (bitlen k - 1))"
      by (rule power_int_minus)
    also have "\<dots> = 1 / 2 ^ nat (bitlen k - 1)"
      using pos by (simp add: power_int_nonneg_exp field_simps)
    finally show ?thesis .
  qed
  ultimately have upper: "x < 2 powi (- bitlen k + 1)"
    by simp
  show ?thesis
    using lower upper by (simp add: e)
qed

lemma floor_log2_bounds:
  assumes "0 < x"
  shows "2 powi floor_log2 x \<le> x \<and> x < 2 powi (floor_log2 x + 1)"
  using assms floor_log2_ge1 [of x] floor_log2_lt1 [of x] by (cases "1 \<le> x") auto

lemma floor_log2_unique:
  assumes "0 < x" and "2 powi e \<le> x" and "x < 2 powi (e + 1)"
  shows "floor_log2 x = e"
proof -
  note b = floor_log2_bounds [OF assms(1)]
  have "\<not> floor_log2 x < e"
  proof
    assume "floor_log2 x < e"
    then have "(2::real) powi (floor_log2 x + 1) \<le> 2 powi e"
      by (intro power_int_increasing) simp_all
    with b assms(2) show False by linarith
  qed
  moreover have "\<not> e < floor_log2 x"
  proof
    assume "e < floor_log2 x"
    then have "(2::real) powi (e + 1) \<le> 2 powi floor_log2 x"
      by (intro power_int_increasing) simp_all
    with b assms(3) show False by linarith
  qed
  ultimately show ?thesis by linarith
qed

lemma round_half_even_error: "\<bar>of_int (round_half_even t) - t\<bar> \<le> 1 / 2"
  unfolding round_half_even_def Let_def by (auto simp: abs_if) linarith+

lemma round_half_even_of_int: "round_half_even (of_int k) = k"
  by (simp add: round_half_even_def)

lemma round_half_even_mono:
  assumes "s \<le> t"
  shows "round_half_even s \<le> round_half_even t"
proof (cases "\<lfloor>s\<rfloor> = \<lfloor>t\<rfloor>")
  case True
  with assms show ?thesis
    by (auto simp: round_half_even_def Let_def)
next
  case False
  with assms have "\<lfloor>s\<rfloor> + 1 \<le> \<lfloor>t\<rfloor>"
    using floor_mono [OF assms] by linarith
  moreover have "round_half_even s \<le> \<lfloor>s\<rfloor> + 1"
    by (auto simp: round_half_even_def Let_def)
  moreover have "\<lfloor>t\<rfloor> \<le> round_half_even t"
    by (auto simp: round_half_even_def Let_def)
  ultimately show ?thesis by linarith
qed

lemma ulp_pos: "0 < ulp x"
  by (simp add: ulp_def)

lemma nearest_zero: "nearest 0 = 0"
  by (simp add: nearest_def round_half_even_def)

lemma nearest_nonneg: "0 \<le> x \<Longrightarrow> 0 \<le> nearest x"
proof -
  assume "0 \<le> x"
  then have "0 \<le> x / ulp x"
    using ulp_pos [of x] by simp
  then have "round_half_even 0 \<le> round_half_even (x / ulp x)"
    by (rule round_half_even_mono)
  then have "0 \<le> round_half_even (x / ulp x)"
    using round_half_even_of_int [of 0] by simp
  then show ?thesis
    using ulp_pos [of x] by (simp add: nearest_def)
qed

lemma nearest_nonpos: "x \<le> 0 \<Longrightarrow> nearest x \<le> 0"
proof -
  assume "x \<le> 0"
  then have "x / ulp x \<le> 0"
    using ulp_pos [of x] by (simp add: divide_le_0_iff)
  then have "round_half_even (x / ulp x) \<le> round_half_even 0"
    by (rule round_half_even_mono)
  then have "round_half_even (x / ulp x) \<le> 0"
    using round_half_even_of_int [of 0] by simp
  then show ?thesis
    using ulp_pos [of x] by (simp add: nearest_def mult_le_0_iff)
qed

lemma pow2_add: "(2::real) powi (a + b) = 2 powi a * 2 powi b"
  by (simp add: power_int_add)

lemma pow2_shift: "(2::real) powi (e + 1) = 2 powi (e - 52) * 2 powi 53"
proof -
  have "e + 1 = (e - 52) + 53"
    by simp
  then show ?thesis
    by (simp only: pow2_add)
qed

lemma pow2_mono: "a \<le> b \<Longrightarrow> (2::real) powi a \<le> 2 powi b"
  by (rule power_int_increasing) simp_all

lemma scaled_bounds:
  fixes x :: real
  assumes "2 powi e \<le> x" and "x < 2 powi (e + 1)"
  shows "2 ^ 52 \<le> x / 2 powi (e - 52)" and "x / 2 powi (e - 52) \<le> 2 ^ 53"
proof -
  define u :: real where "u = 2 powi (e - 52)"
  define p :: real where "p = 2 ^ 52"
  define q :: real where "q = 2 ^ 53"
  have u: "0 < u"
    by (simp add: u_def)
  have "(2::real) powi e = 2 powi 52 * 2 powi (e - 52)"
    using pow2_add [of 52 "e - 52"] by simp
  then have "2 powi e = p * u"
    by (simp add: p_def u_def)
  with assms(1) have "p * u \<le> x"
    by simp
  then have "p \<le> x / u"
    using u by (simp add: pos_le_divide_eq)
  then show "2 ^ 52 \<le> x / 2 powi (e - 52)"
    by (simp only: p_def u_def)
  have "2 powi (e + 1) = q * u"
    using pow2_shift [of e] by (simp add: q_def u_def)
  with assms(2) have "x \<le> q * u"
    by simp
  then have "x / u \<le> q"
    using u by (simp add: pos_divide_le_eq)
  then show "x / 2 powi (e - 52) \<le> 2 ^ 53"
    by (simp only: q_def u_def)
qed

lemma round_half_even_numeral: "round_half_even (numeral n) = numeral n"
  using round_half_even_of_int [of "numeral n"] by simp

lemma round_half_even_ge:
  "of_int k \<le> t \<Longrightarrow> k \<le> round_half_even t"
  using round_half_even_mono [of "of_int k" t] by (simp add: round_half_even_of_int)

lemma round_half_even_le:
  "t \<le> of_int k \<Longrightarrow> round_half_even t \<le> k"
  using round_half_even_mono [of t "of_int k"] by (simp add: round_half_even_of_int)

lemma nearest_normal_bounds:
  assumes "0 < x" and "- 1022 \<le> floor_log2 x"
  shows "2 powi floor_log2 x \<le> nearest x" and "nearest x \<le> 2 powi (floor_log2 x + 1)"
proof -
  define e where "e = floor_log2 x"
  define u :: real where "u = 2 powi (e - 52)"
  have ulp: "ulp x = u"
    using assms by (simp add: ulp_def u_def e_def max_def)
  have b: "2 powi e \<le> x" "x < 2 powi (e + 1)"
    using floor_log2_bounds [OF assms(1)] by (simp_all add: e_def)
  note sc = scaled_bounds [OF b, folded u_def]
  have lo: "2 ^ 52 \<le> round_half_even (x / u)"
    using sc(1) by (intro round_half_even_ge) simp
  have hi: "round_half_even (x / u) \<le> 2 ^ 53"
    using sc(2) by (intro round_half_even_le) simp
  have upos: "0 < u"
    by (simp add: u_def)
  have "(2::real) powi e = u * 2 powi 52"
    using pow2_add [of "e - 52" 52] by (simp add: u_def)
  also have "\<dots> = u * of_int (2 ^ 52)"
    by simp
  also have "\<dots> \<le> u * of_int (round_half_even (x / u))"
  proof -
    have "(of_int (2 ^ 52) :: real) \<le> of_int (round_half_even (x / u))"
      using lo by (simp only: of_int_le_iff)
    then show ?thesis
      using upos by (simp only: mult_le_cancel_left_pos)
  qed
  finally show "2 powi floor_log2 x \<le> nearest x"
    by (simp add: nearest_def ulp e_def)
  have "u * of_int (round_half_even (x / u)) \<le> u * of_int (2 ^ 53)"
  proof -
    have "(of_int (round_half_even (x / u)) :: real) \<le> of_int (2 ^ 53)"
      using hi by (simp only: of_int_le_iff)
    then show ?thesis
      using upos by (simp only: mult_le_cancel_left_pos)
  qed
  also have "\<dots> = u * 2 powi 53"
    by simp
  also have "\<dots> = 2 powi (e + 1)"
    using pow2_shift [of e] by (simp only: u_def)
  finally show "nearest x \<le> 2 powi (floor_log2 x + 1)"
    by (simp add: nearest_def ulp e_def)
qed

lemma nearest_subnormal_bound:
  assumes "0 < x" and "floor_log2 x < - 1022"
  shows "nearest x \<le> 2 powi (- 1022)"
proof -
  define u :: real where "u = 2 powi (- 1074)"
  have ulp: "ulp x = u"
    using assms by (simp add: ulp_def u_def max_def)
  have upos: "0 < u"
    by (simp add: u_def)
  have "x < 2 powi (floor_log2 x + 1)"
    using floor_log2_bounds [OF assms(1)] by simp
  also have "\<dots> \<le> 2 powi (- 1022)"
    using assms(2) by (intro pow2_mono) simp
  also have "\<dots> = of_int (2 ^ 52) * u"
    using pow2_add [of 52 "- 1074"] by (simp add: u_def)
  finally have "x / u \<le> of_int (2 ^ 52)"
    using upos by (simp only: pos_divide_le_eq)
  then have "round_half_even (x / u) \<le> 2 ^ 52"
    by (rule round_half_even_le)
  then have "(of_int (round_half_even (x / u)) :: real) \<le> of_int (2 ^ 52)"
    by (simp only: of_int_le_iff)
  then have "u * of_int (round_half_even (x / u)) \<le> u * of_int (2 ^ 52)"
    using upos by (simp only: mult_le_cancel_left_pos)
  also have "\<dots> = 2 powi (- 1022)"
    using pow2_add [of "- 1074" 52] by (simp add: u_def)
  finally show ?thesis
    by (simp add: nearest_def ulp)
qed

lemma floor_log2_mono:
  assumes "0 < x" and "x \<le> y"
  shows "floor_log2 x \<le> floor_log2 y"
proof (rule ccontr)
  assume "\<not> floor_log2 x \<le> floor_log2 y"
  then have "(2::real) powi (floor_log2 y + 1) \<le> 2 powi floor_log2 x"
    by (intro pow2_mono) simp
  moreover have "2 powi floor_log2 x \<le> x"
    using floor_log2_bounds [OF assms(1)] by simp
  moreover have "y < 2 powi (floor_log2 y + 1)"
    using floor_log2_bounds [of y] assms by simp
  ultimately show False
    using assms(2) by linarith
qed

lemma nearest_mono:
  assumes "0 \<le> x" and "x \<le> y"
  shows "nearest x \<le> nearest y"
proof (cases "x = 0")
  case True
  with assms nearest_nonneg [of y] show ?thesis
    by (simp add: nearest_zero)
next
  case False
  with assms have x: "0 < x" and y: "0 < y"
    by simp_all
  define ex where "ex = max (floor_log2 x) (- 1022)"
  define ey where "ey = max (floor_log2 y) (- 1022)"
  have le: "ex \<le> ey"
    using floor_log2_mono [OF x assms(2)] by (simp add: ex_def ey_def max_def)
  show ?thesis
  proof (cases "ex = ey")
    case True
    then have u: "ulp x = ulp y"
      using x y by (simp add: ulp_def ex_def ey_def)
    have "x / ulp y \<le> y / ulp y"
      using assms(2) ulp_pos [of y] by (simp add: divide_right_mono)
    then have "round_half_even (x / ulp y) \<le> round_half_even (y / ulp y)"
      by (rule round_half_even_mono)
    then have "(of_int (round_half_even (x / ulp y)) :: real)
                 \<le> of_int (round_half_even (y / ulp y))"
      by (simp only: of_int_le_iff)
    then show ?thesis
      using ulp_pos [of y] by (simp add: nearest_def u)
  next
    case False
    with le have lt: "ex < ey"
      by simp
    then have ny: "- 1022 \<le> floor_log2 y" and ey: "ey = floor_log2 y"
      by (simp_all add: ex_def ey_def max_def split: if_splits)
    have "nearest x \<le> 2 powi (ex + 1)"
    proof (cases "- 1022 \<le> floor_log2 x")
      case True
      then show ?thesis
        using nearest_normal_bounds(2) [OF x] by (simp add: ex_def max_def)
    next
      case False
      then have "nearest x \<le> 2 powi (- 1022)"
        using nearest_subnormal_bound [OF x] by simp
      also have "\<dots> \<le> 2 powi (ex + 1)"
        by (intro pow2_mono) (simp add: ex_def)
      finally show ?thesis .
    qed
    also have "\<dots> \<le> 2 powi ey"
      using lt by (intro pow2_mono) simp
    also have "\<dots> \<le> nearest y"
      using nearest_normal_bounds(1) [OF y ny] by (simp add: ey)
    finally show ?thesis .
  qed
qed

lemma nearest_exact:
  assumes "x / ulp x = of_int k"
  shows "nearest x = x"
proof -
  have "nearest x = ulp x * (x / ulp x)"
    unfolding nearest_def assms by (simp add: round_half_even_of_int)
  then show ?thesis
    using ulp_pos [of x] by simp
qed

lemma floor_log2_range:
  assumes "0 < x" and "2 powi lo \<le> x" and "x \<le> 2 powi hi"
  shows "lo \<le> floor_log2 x" and "floor_log2 x \<le> hi"
proof -
  note b = floor_log2_bounds [OF assms(1)]
  show "lo \<le> floor_log2 x"
  proof (rule ccontr)
    assume "\<not> lo \<le> floor_log2 x"
    then have "(2::real) powi (floor_log2 x + 1) \<le> 2 powi lo"
      by (intro pow2_mono) simp
    with b assms(2) show False by linarith
  qed
  show "floor_log2 x \<le> hi"
  proof (rule ccontr)
    assume "\<not> floor_log2 x \<le> hi"
    then have "(2::real) powi (hi + 1) \<le> 2 powi floor_log2 x"
      by (intro pow2_mono) simp
    moreover have "(2::real) powi hi < 2 powi (hi + 1)"
      by (intro power_int_strict_increasing) simp_all
    ultimately show False
      using b assms(3) by linarith
  qed
qed

lemma nearest_of_int:
  assumes "0 \<le> n" and "n \<le> 2 ^ 53"
  shows "nearest (of_int n) = of_int n"
proof (cases "n = 0")
  case True
  then show ?thesis by (simp add: nearest_zero)
next
  case False
  define x :: real where "x = of_int n"
  define e where "e = floor_log2 x"
  have pos: "0 < x" and one: "1 \<le> x"
    using False assms(1) by (simp_all add: x_def)
  have top: "x \<le> 2 powi 53"
  proof -
    have "(of_int n :: real) \<le> of_int (2 ^ 53)"
      using assms(2) by (simp only: of_int_le_iff)
    then show ?thesis by (simp add: x_def)
  qed
  have range: "0 \<le> e" "e \<le> 53"
    using floor_log2_range [OF pos, of 0 53] one top by (simp_all add: e_def)
  have ulp: "ulp x = 2 powi (e - 52)"
    using pos range by (simp add: ulp_def e_def max_def)
  show ?thesis
  proof (cases "e = 53")
    case True
    then have "2 powi 53 \<le> x"
      using floor_log2_bounds [OF pos] by (simp add: e_def)
    with top have x53: "x = 2 powi 53"
      by linarith
    have "ulp x = 2"
      by (simp add: ulp True)
    then have "x / ulp x = of_int (2 ^ 52)"
      by (simp only: x53) simp
    then show ?thesis
      unfolding x_def [symmetric] by (rule nearest_exact)
  next
    case False
    with range have le: "e \<le> 52"
      by simp
    have "(2::real) powi (e - 52) * 2 powi (52 - e) = 1"
      using pow2_add [of "e - 52" "52 - e"] by simp
    then have "1 / (2::real) powi (e - 52) = 2 powi (- (e - 52))"
      by (simp add: field_simps)
    also have "\<dots> = 2 ^ nat (52 - e)"
      using le by (simp add: power_int_nonneg_exp)
    finally have inv: "1 / (2::real) powi (e - 52) = 2 ^ nat (52 - e)" .
    have "x / ulp x = x * (1 / ulp x)"
      by simp
    also have "\<dots> = x * 2 ^ nat (52 - e)"
      by (simp only: ulp inv)
    also have "\<dots> = of_int (n * 2 ^ nat (52 - e))"
      by (simp add: x_def)
    finally have "x / ulp x = of_int (n * 2 ^ nat (52 - e))" .
    then show ?thesis
      unfolding x_def [symmetric] by (rule nearest_exact)
  qed
qed

lemma nearest_error:
  assumes "0 < x" and "- 1022 \<le> floor_log2 x"
  shows "\<bar>nearest x - x\<bar> \<le> x * 2 powi (- 53)"
proof -
  define e where "e = floor_log2 x"
  define u :: real where "u = 2 powi (e - 52)"
  have ulp: "ulp x = u"
    using assms by (simp add: ulp_def u_def e_def max_def)
  have upos: "0 < u"
    by (simp add: u_def)
  have "nearest x - x = u * (of_int (round_half_even (x / u)) - x / u)"
    using upos by (simp add: nearest_def ulp algebra_simps)
  then have "\<bar>nearest x - x\<bar> = u * \<bar>of_int (round_half_even (x / u)) - x / u\<bar>"
    using upos by (simp add: abs_mult)
  also have "\<dots> \<le> u * (1 / 2)"
    using round_half_even_error [of "x / u"] upos by (simp only: mult_le_cancel_left_pos)
  also have "\<dots> = 2 powi e * 2 powi (- 53)"
  proof -
    have "e - 52 = e + (- 53) + 1"
      by simp
    then have "u = 2 powi e * 2 powi (- 53) * 2 powi 1"
      unfolding u_def by (simp only: pow2_add)
    then show ?thesis by simp
  qed
  also have "\<dots> \<le> x * 2 powi (- 53)"
    using floor_log2_bounds [OF assms(1)] by (simp add: e_def)
  finally show ?thesis .
qed

lemma round_half_even_near:
  assumes "\<bar>t - of_int m\<bar> < 1 / 2"
  shows "round_half_even t = m"
proof -
  have "\<bar>of_int (round_half_even t) - t\<bar> \<le> 1 / 2"
    by (rule round_half_even_error)
  with assms have "\<bar>(of_int (round_half_even t) :: real) - of_int m\<bar> < 1"
    by linarith
  then have "\<bar>(of_int (round_half_even t - m) :: real)\<bar> < 1"
    by simp
  then have "\<bar>round_half_even t - m\<bar> < 1"
    by (simp only: of_int_abs [symmetric] of_int_less_1_iff)
  then show ?thesis by linarith
qed

lemma floor_log2_normal:
  assumes "2 powi (- 1022) \<le> x"
  shows "- 1022 \<le> floor_log2 x"
proof -
  have "(0::real) < 2 powi (- 1022)"
    by simp
  with assms have "0 < x"
    by linarith
  then show ?thesis
    using floor_log2_range(1) [of x "- 1022" "floor_log2 x + 1"] assms
      floor_log2_bounds [of x] by simp
qed

lemma round_to_double_Finite:
  assumes "\<bar>nearest x\<bar> < 2 powi 1024"
  shows "round_to_double x = Finite (nearest x)"
  using assms by (simp add: round_to_double_def Let_def abs_if split: if_splits)

lemma round_to_double_not_NaN: "round_to_double x \<noteq> NaN"
  by (simp add: round_to_double_def Let_def)

lemma round_to_double_of_int:
  assumes "0 \<le> n" and "n \<le> 2 ^ 53"
  shows "round_to_double (of_int n) = Finite (of_int n)"
proof -
  have n: "nearest (of_int n) = of_int n"
    using assms by (rule nearest_of_int)
  have "(of_int n :: real) \<le> of_int (2 ^ 53)"
    using assms(2) by (simp only: of_int_le_iff)
  then have "(of_int n :: real) \<le> 2 ^ 53"
    by simp
  also have "(2::real) ^ 53 < 2 ^ 1024"
    by (rule power_strict_increasing) simp_all
  finally have "\<bar>nearest (of_int n)\<bar> < 2 powi 1024"
    using assms(1) by (simp add: n)
  then show ?thesis
    using round_to_double_Finite [of "of_int n"] by (simp add: n)
qed

lemma round_to_double_of_nat:
  assumes "int n \<le> 2 ^ 53"
  shows "round_to_double (real n) = Finite (real n)"
proof -
  have "round_to_double (of_int (int n)) = Finite (of_int (int n))"
    using assms by (intro round_to_double_of_int) simp_all
  then show ?thesis by simp
qed

lemma pow2_53_less: "(2::real) ^ 53 < 2 powi 1024"
proof -
  have "(2::real) ^ 53 < 2 ^ 1024"
    by (rule power_strict_increasing) simp_all
  then show ?thesis by simp
qed

lemma int_div_le_self:
  fixes a b :: int
  assumes "0 \<le> a" and "0 < b"
  shows "a div b \<le> a"
proof -
  have n0: "0 \<le> a div b"
    using assms by (simp add: pos_imp_zdiv_nonneg_iff)
  have "a div b * 1 \<le> a div b * b"
    using n0 assms(2) by (intro mult_left_mono) simp_all
  moreover have "a = a div b * b + a mod b"
    by simp
  moreover have "0 \<le> a mod b"
    using assms(2) by simp
  ultimately show ?thesis by linarith
qed

lemma div_rounding:
  fixes a b :: int
  assumes "0 \<le> a" and "a < 2 ^ 53" and "0 < b" and "b \<le> 2 ^ 53"
  shows "\<exists>y. round_to_double (of_int a / of_int b) = Finite y
           \<and> \<lfloor>y\<rfloor> = a div b \<and> \<lceil>y\<rceil> = \<lceil>of_int a / of_int b :: real\<rceil>"
proof (cases "b dvd a")
  case True
  define n where "n = a div b"
  have x: "(of_int a / of_int b :: real) = of_int n"
    using True assms(3) by (simp add: n_def real_of_int_div)
  have "0 \<le> n" and "n \<le> a"
    using assms(1,3) int_div_le_self [of a b] by (simp_all add: n_def pos_imp_zdiv_nonneg_iff)
  then have "round_to_double (of_int n) = Finite (of_int n)"
    using assms(2) by (intro round_to_double_of_int) simp_all
  then show ?thesis
    unfolding x by (simp add: n_def)
next
  case False
  define n where "n = a div b"
  define r where "r = a mod b"
  define x :: real where "x = of_int a / of_int b"
  have "0 \<le> r" and "r < b" and "r \<noteq> 0"
    using False assms(3) by (simp_all add: r_def dvd_eq_mod_eq_0)
  then have r: "1 \<le> r" "r \<le> b - 1"
    by linarith+
  have a: "a = n * b + r"
    by (simp add: n_def r_def)
  have bpos: "(0::real) < of_int b"
    using assms(3) by simp
  have inv_pos: "(0::real) < 1 / of_int b"
    using bpos by simp
  have xeq: "x = of_int n + of_int r / of_int b"
    using bpos by (simp add: x_def a field_simps)
  have n0: "0 \<le> n"
    using assms(1,3) by (simp add: n_def pos_imp_zdiv_nonneg_iff)
  have n0': "(0::real) \<le> of_int n"
    using n0 by simp
  have lo: "of_int n + 1 / of_int b \<le> x"
  proof -
    have "(1::real) \<le> of_int r"
      using r(1) by simp
    then have "1 / of_int b \<le> of_int r / (of_int b :: real)"
      using bpos by (simp add: divide_right_mono)
    then show ?thesis by (simp add: xeq)
  qed
  have hi: "x \<le> of_int n + 1 - 1 / of_int b"
  proof -
    have "(of_int r :: real) \<le> of_int (b - 1)"
      using r(2) by (simp only: of_int_le_iff)
    then have "(of_int r :: real) \<le> of_int b - 1"
      by simp
    then have "of_int r / (of_int b :: real) \<le> (of_int b - 1) / of_int b"
      using bpos by (simp add: divide_right_mono)
    also have "\<dots> = 1 - 1 / of_int b"
      using bpos by (simp add: field_simps)
    finally show ?thesis by (simp add: xeq)
  qed
  have xpos: "0 < x"
    using lo n0' inv_pos by linarith
  have b53: "(of_int b :: real) \<le> 2 ^ 53"
  proof -
    have "(of_int b :: real) \<le> of_int (2 ^ 53)"
      using assms(4) by (simp only: of_int_le_iff)
    then show ?thesis by simp
  qed
  have a53: "(of_int a :: real) < 2 ^ 53"
  proof -
    have "(of_int a :: real) < of_int (2 ^ 53)"
      using assms(2) by (simp only: of_int_less_iff)
    then show ?thesis by simp
  qed
  have p53: "(2::real) powi (- 53) = 1 / 2 ^ 53"
    by (simp add: power_int_minus field_simps)
  have small: "(2::real) powi (- 53) \<le> 1 / of_int b"
    unfolding p53 using b53 bpos by (intro frac_le) simp_all
  have normal: "- 1022 \<le> floor_log2 x"
  proof (rule floor_log2_normal)
    have "(2::real) powi (- 1022) \<le> 2 powi (- 53)"
      by (rule pow2_mono) simp
    also have "\<dots> \<le> 1 / of_int b"
      by (rule small)
    also have "\<dots> \<le> x"
      using lo n0' by linarith
    finally show "2 powi (- 1022) \<le> x" .
  qed
  have "x * 2 powi (- 53) = (of_int a / 2 ^ 53) * (1 / of_int b)"
    unfolding p53 by (simp add: x_def)
  also have "\<dots> < 1 * (1 / of_int b)"
    using a53 inv_pos by (intro mult_strict_right_mono) simp_all
  finally have "x * 2 powi (- 53) < 1 / of_int b"
    by simp
  then have err: "\<bar>nearest x - x\<bar> < 1 / of_int b"
    using nearest_error [OF xpos normal] by linarith
  have above: "of_int n < nearest x" and below: "nearest x < of_int n + 1"
    using err lo hi by linarith+
  have fl: "\<lfloor>nearest x\<rfloor> = n"
  proof (rule floor_unique)
    show "of_int n \<le> nearest x"
      using above by linarith
    show "nearest x < of_int n + 1"
      by (rule below)
  qed
  have ce: "\<lceil>nearest x\<rceil> = n + 1"
  proof (rule ceiling_unique)
    show "of_int (n + 1) - 1 < nearest x"
      using above by simp
    show "nearest x \<le> of_int (n + 1)"
      using below by simp
  qed
  have cx: "\<lceil>x\<rceil> = n + 1"
  proof (rule ceiling_unique)
    have "of_int n < x"
      using lo inv_pos by linarith
    then show "of_int (n + 1) - 1 < x"
      by simp
    have "x \<le> of_int n + 1"
      using hi inv_pos by linarith
    then show "x \<le> of_int (n + 1)"
      by simp
  qed
  have "n \<le> a"
    using assms(1,3) int_div_le_self [of a b] by (simp add: n_def)
  then have "(of_int n :: real) \<le> of_int a"
    by (simp only: of_int_le_iff)
  then have "(of_int n :: real) + 1 \<le> 2 ^ 53 + 1"
    using a53 by linarith
  moreover have "(2::real) ^ 53 + 1 < 2 powi 1024"
  proof -
    have "(2::real) ^ 53 + 1 \<le> 2 ^ 54"
      by simp
    also have "(2::real) ^ 54 < 2 ^ 1024"
      by (rule power_strict_increasing) simp_all
    finally show ?thesis by simp
  qed
  ultimately have "\<bar>nearest x\<bar> < 2 powi 1024"
    using above below n0' by linarith
  then have "round_to_double x = Finite (nearest x)"
    by (rule round_to_double_Finite)
  then show ?thesis
    using fl ce cx by (simp add: x_def n_def)
qed

section \<open>Properties of the window\<close>

lemma number_le_refl: "a \<noteq> NaN \<Longrightarrow> number_le a a"
  by (cases a) simp_all

lemma number_le_trans: "number_le a b \<Longrightarrow> number_le b c \<Longrightarrow> number_le a c"
  by (cases a; cases b; cases c) simp_all

lemma number_le_not_NaN: "number_le a b \<Longrightarrow> a \<noteq> NaN \<and> b \<noteq> NaN"
  by (cases a; cases b) simp_all

lemma Math_max_ge: "b \<noteq> NaN \<Longrightarrow> number_le (Finite x) (Math_max (Finite x) b)"
  by (cases b) (simp_all add: Math_max_def)

lemma Math_min_le: "b \<noteq> NaN \<Longrightarrow> number_le (Math_min (Finite x) b) (Finite x)"
  by (cases b) (simp_all add: Math_min_def)

lemma Math_min_ge:
  "number_le c (Finite x) \<Longrightarrow> number_le c b \<Longrightarrow> number_le c (Math_min (Finite x) b)"
  by (cases b; cases c) (simp_all add: Math_min_def)

lemma round_to_double_zero: "round_to_double 0 = Finite 0"
  by (simp add: round_to_double_def nearest_zero)

lemma round_to_double_mono:
  assumes "0 \<le> x" and "x \<le> y"
  shows "number_le (round_to_double x) (round_to_double y)"
proof -
  have "nearest x \<le> nearest y" and "0 \<le> nearest x"
    using assms nearest_mono [of x y] nearest_nonneg [of x] by simp_all
  moreover have "(0::real) < 2 powi 1024"
    by simp
  ultimately show ?thesis
    by (simp add: round_to_double_def Let_def)
qed

lemma round_to_double_nonneg:
  "0 \<le> x \<Longrightarrow> number_le (Finite 0) (round_to_double x)"
  using round_to_double_mono [of 0 x] by (simp add: round_to_double_zero)

lemma round_to_double_nonpos:
  "x \<le> 0 \<Longrightarrow> number_le (round_to_double x) (Finite 0)"
  using nearest_nonpos [of x] by (simp add: round_to_double_def Let_def)

lemma js_div_mono:
  assumes "number_le (Finite 0) a" and "number_le a b" and "0 < r"
  shows "number_le (js_div a (Finite r)) (js_div b (Finite r))"
proof (cases a)
  case (Finite x)
  with assms(1) have x: "0 \<le> x" by simp
  show ?thesis
  proof (cases b)
    case (Finite y)
    with assms(2) \<open>a = Finite x\<close> have "x \<le> y" by simp
    then have "x / r \<le> y / r" and "0 \<le> x / r"
      using assms(3) x by (simp_all add: divide_right_mono)
    then show ?thesis
      using assms(3) \<open>a = Finite x\<close> Finite round_to_double_mono [of "x / r" "y / r"] by simp
  next
    case PosInfinity
    then show ?thesis
      using assms(3) Finite round_to_double_not_NaN [of "x / r"]
      by (cases "round_to_double (x / r)") simp_all
  qed (use assms(2) Finite in simp_all)
next
  case PosInfinity
  with assms(2,3) show ?thesis by (cases b) simp_all
qed (use assms(1) in simp_all)

lemma js_div_nonneg:
  assumes "number_le (Finite 0) a" and "0 < r"
  shows "number_le (Finite 0) (js_div a (Finite r))"
proof (cases a)
  case (Finite x)
  with assms show ?thesis
    using round_to_double_nonneg [of "x / r"] by simp
qed (use assms in simp_all)

lemma floor_le_ceil_number:
  "number_le a b \<Longrightarrow> number_le (Math_floor a) (Math_ceil b)"
proof (cases a; cases b)
  fix x y
  assume "a = Finite x" "b = Finite y" "number_le a b"
  then have "x \<le> y" by simp
  then have "\<lfloor>x\<rfloor> \<le> \<lceil>y\<rceil>"
    by linarith
  then show ?thesis
    using \<open>a = Finite x\<close> \<open>b = Finite y\<close> by simp
qed simp_all

lemma Math_ceil_nonneg: "number_le (Finite 0) a \<Longrightarrow> number_le (Finite 0) (Math_ceil a)"
proof (cases a)
  case (Finite x)
  assume "number_le (Finite 0) a"
  with Finite have "0 \<le> x" by simp
  then have "0 \<le> \<lceil>x\<rceil>" by linarith
  with Finite show ?thesis by simp
qed simp_all

lemma js_add_nonneg:
  assumes "number_le (Finite 0) a" and "0 \<le> y"
  shows "number_le (Finite 0) (js_add a (Finite y))"
proof (cases a)
  case (Finite x)
  with assms show ?thesis
    using round_to_double_nonneg [of "x + y"] by simp
qed (use assms in simp_all)

lemma js_add_mono:
  assumes "number_le (Finite x) a" and "0 \<le> x" and "0 \<le> y" and "is_double x"
  shows "number_le (Finite x) (js_add a (Finite y))"
proof (cases a)
  case (Finite z)
  with assms(1) have "x \<le> z" by simp
  then have "number_le (round_to_double x) (round_to_double (z + y))"
    using assms(2,3) by (intro round_to_double_mono) simp_all
  with Finite assms(4) show ?thesis
    by (simp add: is_double_def)
qed (use assms in simp_all)

lemma js_sub_not_NaN: "a \<noteq> NaN \<Longrightarrow> js_sub a (Finite y) \<noteq> NaN"
  by (cases a) (simp_all add: js_sub_def round_to_double_not_NaN)

lemma js_div_not_NaN: "r \<noteq> 0 \<Longrightarrow> js_div (Finite x) (Finite r) \<noteq> NaN"
  by (simp add: round_to_double_not_NaN)

lemma Math_floor_not_NaN: "a \<noteq> NaN \<Longrightarrow> Math_floor a \<noteq> NaN"
  by (cases a) simp_all

lemma is_double_of_int: "0 \<le> n \<Longrightarrow> n \<le> 2 ^ 53 \<Longrightarrow> is_double (of_int n)"
  by (simp add: is_double_def round_to_double_of_int)

lemma length_is_double:
  "int (length items) < 2 ^ 32 \<Longrightarrow> round_to_double (real (length items)) = Finite (real (length items))"
  by (rule round_to_double_of_nat) simp

lemma endIndex_range:
  fixes items :: "'a list"
  assumes "0 < rowHeight" and "0 < listHeight" and "0 \<le> overscanCount"
    and "0 \<le> scrollOffset"
  shows "number_le (Finite 0) (endIndex_of items scrollOffset listHeight rowHeight overscanCount)"
    and "number_le (endIndex_of items scrollOffset listHeight rowHeight overscanCount)
           (Finite (real (length items)))"
proof -
  define bottom where
    "bottom = js_add (Math_ceil (js_div (js_add (Finite scrollOffset) (Finite listHeight))
                (Finite rowHeight))) (Finite (of_int overscanCount))"
  have "number_le (Finite 0) (js_add (Finite scrollOffset) (Finite listHeight))"
    using assms(2,4) round_to_double_nonneg [of "scrollOffset + listHeight"] by simp
  then have "number_le (Finite 0)
      (Math_ceil (js_div (js_add (Finite scrollOffset) (Finite listHeight)) (Finite rowHeight)))"
    using assms(1) by (intro Math_ceil_nonneg js_div_nonneg)
  then have bottom: "number_le (Finite 0) bottom"
    unfolding bottom_def using assms(3) by (intro js_add_nonneg) simp_all
  then have nn: "bottom \<noteq> NaN"
    using number_le_not_NaN by blast
  have e: "endIndex_of items scrollOffset listHeight rowHeight overscanCount
             = Math_min (Finite (real (length items))) bottom"
    by (simp add: endIndex_of_def bottom_def)
  show "number_le (Finite 0) (endIndex_of items scrollOffset listHeight rowHeight overscanCount)"
    unfolding e using bottom by (intro Math_min_ge) simp_all
  show "number_le (endIndex_of items scrollOffset listHeight rowHeight overscanCount)
           (Finite (real (length items)))"
    unfolding e using nn by (rule Math_min_le)
qed

lemma startIndex_nonneg:
  assumes "rowHeight \<noteq> 0"
  shows "number_le (Finite 0) (startIndex_of scrollOffset rowHeight overscanCount)"
  unfolding startIndex_of_def
  using assms by (intro Math_max_ge js_sub_not_NaN Math_floor_not_NaN js_div_not_NaN)

lemma startIndex_le_endIndex:
  fixes items :: "'a list"
  assumes "0 < rowHeight" and "0 < listHeight" and "0 \<le> overscanCount"
    and "0 \<le> scrollOffset" and "is_double scrollOffset"
    and "int (length items) < 2 ^ 32"
    and "scrollOffset \<le> real (length items) * rowHeight"
  shows "number_le (startIndex_of scrollOffset rowHeight overscanCount)
           (endIndex_of items scrollOffset listHeight rowHeight overscanCount)"
proof -
  define n where "n = real (length items)"
  define q1 where "q1 = js_div (Finite scrollOffset) (Finite rowHeight)"
  define q2 where "q2 = js_div (js_add (Finite scrollOffset) (Finite listHeight)) (Finite rowHeight)"
  define bottom where "bottom = js_add (Math_ceil q2) (Finite (of_int overscanCount))"
  have n_double: "round_to_double n = Finite n"
    unfolding n_def using assms(6) by (rule length_is_double)
  have quot: "0 \<le> scrollOffset / rowHeight" "scrollOffset / rowHeight \<le> n"
    using assms(1,4,7) by (simp_all add: n_def pos_divide_le_eq)
  have q1: "q1 = round_to_double (scrollOffset / rowHeight)"
    using assms(1) by (simp add: q1_def)
  have "number_le q1 (Finite n)" and "number_le (Finite 0) q1"
    using round_to_double_mono [OF quot] round_to_double_nonneg [OF quot(1)]
    by (simp_all add: q1 n_double)
  then obtain y where y: "q1 = Finite y" "0 \<le> y" "y \<le> n"
    by (cases q1) simp_all
  define f where "f = \<lfloor>y\<rfloor>"
  have f: "0 \<le> f" "real_of_int f \<le> n"
    using y(2,3) unfolding f_def by linarith+
  have f53: "f \<le> 2 ^ 53"
  proof -
    have "real_of_int f \<le> real_of_int (int (length items))"
      using f(2) by (simp add: n_def)
    then have "f \<le> int (length items)"
      by (simp only: of_int_le_iff)
    with assms(6) show ?thesis by simp
  qed
  have f_double: "is_double (of_int f)"
    using f(1) f53 by (rule is_double_of_int)
  \<comment> \<open>the start index is a finite number between 0 and the floor\<close>
  have top: "js_sub (Math_floor q1) (Finite (of_int overscanCount))
               = round_to_double (of_int f - of_int overscanCount)"
    by (simp add: y(1) f_def js_sub_def)
  have sidx: "startIndex_of scrollOffset rowHeight overscanCount
                = Math_max (Finite 0) (round_to_double (of_int f - of_int overscanCount))"
    by (simp only: startIndex_of_def q1_def [symmetric] top)
  obtain st where st: "startIndex_of scrollOffset rowHeight overscanCount = Finite st"
      "0 \<le> st" "st \<le> of_int f"
  proof (cases "overscanCount \<le> f")
    case True
    then have "0 \<le> f - overscanCount" and "f - overscanCount \<le> 2 ^ 53"
      using assms(3) f53 by simp_all
    then have "round_to_double (of_int (f - overscanCount)) = Finite (of_int (f - overscanCount))"
      by (rule round_to_double_of_int)
    then have "round_to_double (of_int f - of_int overscanCount)
                 = Finite (of_int (f - overscanCount))"
      by simp
    moreover have z: "(0::real) \<le> of_int (f - overscanCount)"
      "(of_int (f - overscanCount) :: real) \<le> of_int f"
      using True assms(3) by simp_all
    ultimately have "startIndex_of scrollOffset rowHeight overscanCount
                 = Finite (of_int (f - overscanCount))"
      unfolding sidx by (simp add: Math_max_def)
    then show ?thesis
      using z by (rule that)
  next
    case False
    then have "real_of_int f - real_of_int overscanCount \<le> 0"
      by simp
    then have "number_le (round_to_double (of_int f - of_int overscanCount)) (Finite 0)"
      by (rule round_to_double_nonpos)
    then have "startIndex_of scrollOffset rowHeight overscanCount = Finite 0"
      unfolding sidx
      by (cases "round_to_double (real_of_int f - real_of_int overscanCount)")
         (auto simp: Math_max_def)
    then show ?thesis
      using f(1) by (intro that [of 0]) simp_all
  qed
  \<comment> \<open>the bottom of the viewport is not above the floor\<close>
  have "number_le (round_to_double scrollOffset) (round_to_double (scrollOffset + listHeight))"
    using assms(2,4) by (intro round_to_double_mono) simp_all
  then have "number_le (Finite scrollOffset) (js_add (Finite scrollOffset) (Finite listHeight))"
    using assms(5) by (simp add: is_double_def)
  then have "number_le q1 q2"
    unfolding q1_def q2_def using assms(1,4) by (intro js_div_mono) simp_all
  then have "number_le (Math_floor q1) (Math_ceil q2)"
    by (rule floor_le_ceil_number)
  then have "number_le (Finite (of_int f)) (Math_ceil q2)"
    by (simp add: y(1) f_def)
  then have "number_le (Finite (of_int f)) bottom"
    unfolding bottom_def using f(1) assms(3) f_double by (intro js_add_mono) simp_all
  then have "number_le (Finite st) bottom"
    using st(3) number_le_trans [of "Finite st" "Finite (of_int f)" bottom] by simp
  moreover have "number_le (Finite st) (Finite n)"
    using st(3) f(2) by simp
  ultimately have "number_le (Finite st) (Math_min (Finite n) bottom)"
    by (intro Math_min_ge)
  then show ?thesis
    by (simp add: st(1) endIndex_of_def bottom_def q2_def n_def)
qed

lemma js_slice_nonneg:
  "0 \<le> start \<Longrightarrow> 0 \<le> fin \<Longrightarrow> fin \<le> int (length xs) \<Longrightarrow>
   js_slice xs start fin = take (nat (fin - start)) (drop (nat start) xs)"
  by (cases "start \<le> int (length xs)")
     (simp_all add: js_slice_def Let_def slice_index_def min_def nat_diff_distrib')

lemma js_slice_Nil: "js_slice [] start fin = []"
  by (simp add: js_slice_def Let_def)

lemma Math_max_zero:
  assumes "number_le a (Finite 0)"
  shows "Math_max (Finite 0) a = Finite 0"
  using assms by (cases a) (auto simp: Math_max_def)

lemma startIndex_exact:
  fixes s r oc :: int
  assumes "0 \<le> s" and "s < 2 ^ 53" and "0 < r" and "r \<le> 2 ^ 53" and "0 \<le> oc"
  shows "startIndex_of (of_int s) (of_int r) oc = Finite (of_int (max 0 (s div r - oc)))"
proof -
  obtain y where y: "round_to_double (of_int s / of_int r) = Finite y" "\<lfloor>y\<rfloor> = s div r"
    using div_rounding [OF assms(1-4)] by blast
  have f0: "0 \<le> s div r" and f53: "s div r \<le> 2 ^ 53"
    using assms(1,2,3) int_div_le_self [of s r] by (simp_all add: pos_imp_zdiv_nonneg_iff)
  have top: "js_sub (Math_floor (js_div (Finite (of_int s)) (Finite (of_int r))))
               (Finite (of_int oc)) = round_to_double (of_int (s div r - oc))"
    using assms(3) by (simp add: y js_sub_def)
  have sidx: "startIndex_of (of_int s) (of_int r) oc
                = Math_max (Finite 0) (round_to_double (of_int (s div r - oc)))"
    by (simp only: startIndex_of_def top)
  show ?thesis
  proof (cases "oc \<le> s div r")
    case True
    then have "0 \<le> s div r - oc" and "s div r - oc \<le> 2 ^ 53"
      using assms(5) f53 by simp_all
    then have "round_to_double (of_int (s div r - oc)) = Finite (of_int (s div r - oc))"
      by (rule round_to_double_of_int)
    then show ?thesis
      unfolding sidx using True by (simp add: Math_max_def max_def)
  next
    case False
    then have "(of_int (s div r - oc) :: real) \<le> 0"
      by simp
    then have "number_le (round_to_double (of_int (s div r - oc))) (Finite 0)"
      by (rule round_to_double_nonpos)
    then have "Math_max (Finite 0) (round_to_double (of_int (s div r - oc))) = Finite 0"
      by (rule Math_max_zero)
    then show ?thesis
      unfolding sidx using False by (simp add: max_def)
  qed
qed

lemma ceiling_quotient_bounds:
  fixes a r :: int
  assumes "0 \<le> a" and "0 < r"
  shows "0 \<le> \<lceil>of_int a / of_int r :: real\<rceil>" and "\<lceil>of_int a / of_int r :: real\<rceil> \<le> a"
proof -
  have "(0::real) \<le> of_int a / of_int r"
    using assms by simp
  then show "0 \<le> \<lceil>of_int a / of_int r :: real\<rceil>"
    by linarith
  have "(1::real) \<le> of_int r"
    using assms(2) by simp
  then have "of_int a / of_int r \<le> (of_int a :: real) / 1"
    using assms(1) by (intro divide_left_mono) simp_all
  then have "of_int a / of_int r \<le> (of_int a :: real)"
    by simp
  then show "\<lceil>of_int a / of_int r :: real\<rceil> \<le> a"
    by (simp add: ceiling_le_iff)
qed

lemma endIndex_exact:
  fixes items :: "'a list" and s v r oc :: int
  assumes "0 \<le> s" and "0 < v" and "0 < r" and "r \<le> 2 ^ 53" and "0 \<le> oc"
    and "s + v + oc < 2 ^ 53"
  shows "endIndex_of items (of_int s) (of_int v) (of_int r) oc
           = Finite (of_int (min (int (length items))
                               (\<lceil>of_int (s + v) / of_int r :: real\<rceil> + oc)))"
proof -
  define c where "c = \<lceil>of_int (s + v) / of_int r :: real\<rceil>"
  have sv: "0 \<le> s + v" "s + v < 2 ^ 53" "s + v \<le> 2 ^ 53"
    using assms(1,2,5,6) by simp_all
  have sum: "js_add (Finite (of_int s)) (Finite (of_int v)) = Finite (of_int (s + v))"
    using round_to_double_of_int [OF sv(1,3)] by simp
  obtain y where y: "round_to_double (of_int (s + v) / of_int r) = Finite y" "\<lceil>y\<rceil> = c"
    using div_rounding [OF sv(1,2) assms(3,4)] unfolding c_def by blast
  have c: "0 \<le> c" "c \<le> s + v"
    unfolding c_def using ceiling_quotient_bounds [OF sv(1) assms(3)] by simp_all
  then have "0 \<le> c + oc" and "c + oc \<le> 2 ^ 53"
    using assms(5,6) by simp_all
  then have "round_to_double (of_int (c + oc)) = Finite (of_int (c + oc))"
    by (rule round_to_double_of_int)
  moreover have "round_to_double ((of_int s + of_int v) / of_int r) = Finite y"
    using y(1) by simp
  ultimately have bottom: "js_add (Math_ceil (js_div (js_add (Finite (of_int s))
                 (Finite (of_int v))) (Finite (of_int r)))) (Finite (of_int oc))
               = Finite (of_int (c + oc))"
    unfolding sum using assms(3) by (simp add: y(2))
  have "Math_min (Finite (real (length items))) (Finite (of_int (c + oc)))
          = Finite (of_int (min (int (length items)) (c + oc)))"
  proof (cases "int (length items) \<le> c + oc")
    case True
    then have "real (length items) \<le> of_int (c + oc)"
      by (metis of_int_le_iff of_int_of_nat_eq)
    with True show ?thesis
      by (simp add: Math_min_def min_def)
  next
    case False
    then have "\<not> real (length items) \<le> of_int (c + oc)"
      by (metis of_int_le_iff of_int_of_nat_eq)
    with False show ?thesis
      by (simp add: Math_min_def min_def)
  qed
  then show ?thesis
    by (simp only: endIndex_of_def bottom c_def)
qed

lemma js_add_not_NaN: "a \<noteq> NaN \<Longrightarrow> js_add a (Finite y) \<noteq> NaN"
  by (cases a) (simp_all add: round_to_double_not_NaN)

lemma js_div_pos_not_NaN: "a \<noteq> NaN \<Longrightarrow> 0 < r \<Longrightarrow> js_div a (Finite r) \<noteq> NaN"
  by (cases a) (simp_all add: round_to_double_not_NaN)

lemma Math_ceil_not_NaN: "a \<noteq> NaN \<Longrightarrow> Math_ceil a \<noteq> NaN"
  by (cases a) simp_all

text \<open>
  C1 (as stated): for every itemCount \<ge> 0, rowHeight > 0, viewportHeight > 0,
  overscan \<ge> 0 and scrollOffset \<ge> 0 the window satisfies
  0 \<le> startIndex \<le> endIndex \<le> itemCount. This fails for a scroll offset beyond the end of
  the content: with three items of height 60 in a viewport of height 700, overscan 5 and a
  scroll offset of 6000 the start index is 95 and the end index is 3.
\<close>

theorem window_order_counterexample:
  "\<not> (number_le (Finite 0) (startIndex_of 6000 60 5)
      \<and> number_le (startIndex_of 6000 60 5) (endIndex_of [1, 2, 3 :: nat] 6000 700 60 5)
      \<and> number_le (endIndex_of [1, 2, 3 :: nat] 6000 700 60 5)
            (Finite (real (length [1, 2, 3 :: nat]))))"
proof -
  have "startIndex_of (of_int 6000) (of_int 60) 5 = Finite (of_int (max 0 (6000 div 60 - 5)))"
    by (rule startIndex_exact) simp_all
  then have s: "startIndex_of 6000 60 5 = Finite 95"
    by simp
  have "endIndex_of [1, 2, 3 :: nat] (of_int 6000) (of_int 700) (of_int 60) 5
          = Finite (of_int (min (int (length [1, 2, 3 :: nat]))
                              (\<lceil>of_int (6000 + 700) / of_int 60 :: real\<rceil> + 5)))"
    by (rule endIndex_exact) simp_all
  then have e: "endIndex_of [1, 2, 3 :: nat] 6000 700 60 5 = Finite 3"
    by simp
  show ?thesis
    unfolding s e by simp
qed

text \<open>
  C1 (amended): for every itemCount \<ge> 0 (below \<open>2^32\<close>, as the length of every array
  is), rowHeight > 0, viewportHeight > 0, overscan \<ge> 0 and every scrollOffset \<ge> 0 that is
  a double, 0 \<le> startIndex and 0 \<le> endIndex \<le> itemCount hold, and
  startIndex \<le> endIndex holds whenever the scroll offset is at most the content height
  itemCount * rowHeight.
\<close>

theorem window_bounds:
  fixes items :: "'a list"
  assumes "0 < rowHeight" and "0 < listHeight" and "0 \<le> overscanCount"
    and "0 \<le> scrollOffset" and "is_double scrollOffset"
    and "int (length items) < 2 ^ 32"
  shows "number_le (Finite 0) (startIndex_of scrollOffset rowHeight overscanCount)
     \<and> number_le (Finite 0) (endIndex_of items scrollOffset listHeight rowHeight overscanCount)
     \<and> number_le (endIndex_of items scrollOffset listHeight rowHeight overscanCount)
          (Finite (real (length items)))
     \<and> (scrollOffset \<le> real (length items) * rowHeight
        \<longrightarrow> number_le (startIndex_of scrollOffset rowHeight overscanCount)
              (endIndex_of items scrollOffset listHeight rowHeight overscanCount))"
proof -
  have "number_le (Finite 0) (startIndex_of scrollOffset rowHeight overscanCount)"
    using assms(1) by (intro startIndex_nonneg) simp
  moreover note endIndex_range [OF assms(1-4), of items]
  moreover have "number_le (startIndex_of scrollOffset rowHeight overscanCount)
              (endIndex_of items scrollOffset listHeight rowHeight overscanCount)"
    if "scrollOffset \<le> real (length items) * rowHeight"
    using assms that by (rule startIndex_le_endIndex)
  ultimately show ?thesis by blast
qed

theorem window_bounds_witness:
  "(0::real) < 60 \<and> (0::real) < 700 \<and> (0::int) \<le> 5 \<and> (0::real) \<le> 120 \<and> is_double 120
   \<and> int (length [1, 2, 3 :: nat]) < 2 ^ 32
   \<and> (120::real) \<le> real (length [1, 2, 3 :: nat]) * 60
   \<and> number_le (startIndex_of 120 60 5) (endIndex_of [1, 2, 3 :: nat] 120 700 60 5)
   \<and> number_le (endIndex_of [1, 2, 3 :: nat] 120 700 60 5) (Finite 3)"
proof -
  have d: "is_double 120"
    using is_double_of_int [of 120] by simp
  have len: "int (length [1, 2, 3 :: nat]) < 2 ^ 32"
    by simp
  have within: "(120::real) \<le> real (length [1, 2, 3 :: nat]) * 60"
    by simp
  show ?thesis
    using window_bounds [of 60 700 5 120 "[1, 2, 3 :: nat]"] d len within by simp
qed

lemma totalHeight_exact:
  fixes items :: "'a list" and r :: int
  assumes "0 < r" and "int (length items) * r \<le> 2 ^ 53"
  shows "totalHeight_of items (of_int r) = Finite (real (length items) * of_int r)"
proof -
  have "0 \<le> int (length items) * r"
    using assms(1) by simp
  then have "round_to_double (of_int (int (length items) * r))
               = Finite (of_int (int (length items) * r))"
    using assms(2) by (rule round_to_double_of_int)
  then show ?thesis
    by (simp add: totalHeight_of_def)
qed

lemma translate_exact:
  fixes s r st :: int
  assumes "0 \<le> s" and "s < 2 ^ 53" and "0 < r" and "0 \<le> st" and "st \<le> s div r"
  shows "js_mul (Finite (of_int st)) (Finite (of_int r)) = Finite (of_int st * of_int r)"
proof -
  have "st * r \<le> (s div r) * r"
    using assms(3,5) by (intro mult_right_mono) simp_all
  also have "\<dots> \<le> s"
  proof -
    have "s = s div r * r + s mod r"
      by simp
    moreover have "0 \<le> s mod r"
      using assms(3) by simp
    ultimately show ?thesis by linarith
  qed
  finally have "st * r \<le> 2 ^ 53"
    using assms(2) by simp
  moreover have "0 \<le> st * r"
    using assms(3,4) by simp
  ultimately have "round_to_double (of_int (st * r)) = Finite (of_int (st * r))"
    by (intro round_to_double_of_int)
  then show ?thesis
    by simp
qed

lemma window_exact:
  fixes items :: "'a list" and s v r oc :: int
  assumes "0 \<le> s" and "0 < v" and "0 < r" and "0 \<le> oc"
    and "s + v + oc < 2 ^ 53" and "r \<le> 2 ^ 53" and "int (length items) * r \<le> 2 ^ 53"
  shows "useVirtualizedList items (of_int v) (of_int r) oc (of_int s) =
     \<lparr> visibleItems =
         take (nat (min (int (length items)) (\<lceil>of_int (s + v) / of_int r :: real\<rceil> + oc)
                     - max 0 (s div r - oc)))
           (drop (nat (max 0 (s div r - oc))) items),
       startIndex = Finite (of_int (max 0 (s div r - oc))),
       containerStyle_height = LIST_HEIGHT,
       contentStyle_height = Finite (real (length items) * of_int r),
       listStyle_translateY = Finite (of_int (max 0 (s div r - oc)) * of_int r),
       totalHeight = Finite (real (length items) * of_int r) \<rparr>"
proof -
  define st where "st = max 0 (s div r - oc)"
  define e where "e = min (int (length items)) (\<lceil>of_int (s + v) / of_int r :: real\<rceil> + oc)"
  have s53: "s < 2 ^ 53"
    using assms(2,4,5) by simp
  have start: "startIndex_of (of_int s) (of_int r) oc = Finite (of_int st)"
    unfolding st_def using assms(1) s53 assms(3,6,4) by (rule startIndex_exact)
  have fin: "endIndex_of items (of_int s) (of_int v) (of_int r) oc = Finite (of_int e)"
    unfolding e_def using assms(1,2,3,6,4,5) by (rule endIndex_exact)
  have total: "totalHeight_of items (of_int r) = Finite (real (length items) * of_int r)"
    using assms(3,7) by (rule totalHeight_exact)
  have st: "0 \<le> st" "st \<le> s div r"
    using assms(4) by (simp_all add: st_def max_def pos_imp_zdiv_nonneg_iff assms(1,3))
  have e: "0 \<le> e" "e \<le> int (length items)"
    using ceiling_quotient_bounds(1) [of "s + v" r] assms(1,2,3,4) by (simp_all add: e_def)
  have trans: "js_mul (Finite (of_int st)) (Finite (of_int r)) = Finite (of_int st * of_int r)"
    using assms(1) s53 assms(3) st by (rule translate_exact)
  have idx: "relative_index (length items) (Finite (of_int st)) = st"
    "relative_index (length items) (Finite (of_int e)) = e"
    using st(1) e(1) by simp_all
  have vis: "js_slice items st e = take (nat (e - st)) (drop (nat st) items)"
    using st(1) e by (rule js_slice_nonneg)
  show ?thesis
    unfolding useVirtualizedList_def Let_def start fin total trans idx vis
    by (simp only: st_def e_def)
qed


lemma round_to_double_eval:
  assumes "0 < x" and "2 powi e \<le> x" and "x < 2 powi (e + 1)"
    and "- 1022 \<le> e" and "e \<le> 1022"
    and "\<bar>x / 2 powi (e - 52) - of_int m\<bar> < 1 / 2"
  shows "round_to_double x = Finite (2 powi (e - 52) * of_int m)"
proof -
  have e: "floor_log2 x = e"
    using assms(1-3) by (rule floor_log2_unique)
  have ulp: "ulp x = 2 powi (e - 52)"
    using assms(1,4) by (simp add: ulp_def e max_def)
  have "round_half_even (x / 2 powi (e - 52)) = m"
    using assms(6) by (rule round_half_even_near)
  then have n: "nearest x = 2 powi (e - 52) * of_int m"
    by (simp add: nearest_def ulp)
  have "nearest x \<le> 2 powi (e + 1)"
    using nearest_normal_bounds(2) [of x] assms(1,4) by (simp add: e)
  also have "\<dots> \<le> 2 powi 1023"
    using assms(5) by (intro pow2_mono) simp
  also have "\<dots> < 2 powi 1024"
    by (intro power_int_strict_increasing) simp_all
  finally have "nearest x < 2 powi 1024" .
  moreover have "0 \<le> nearest x"
    using assms(1) by (intro nearest_nonneg) simp
  ultimately have "\<bar>nearest x\<bar> < 2 powi 1024"
    by simp
  then show ?thesis
    using round_to_double_Finite [of x] by (simp add: n)
qed

lemma sum_720: "round_to_double (20 + 1 / 2 ^ 48 + 700) = Finite 720"
  using round_to_double_eval [of "20 + 1 / 2 ^ 48 + 700" 9 6333186975989760]
  by simp

lemma double_20: "is_double (20 + 1 / 2 ^ 48)"
  unfolding is_double_def
  using round_to_double_eval [of "20 + 1 / 2 ^ 48" 4 5629499534213121]
  by simp

lemma small_ints:
  "round_to_double 12 = Finite 12" "round_to_double 17 = Finite 17"
  "round_to_double 29 = Finite 29" "round_to_double 27 = Finite 27"
  using round_to_double_of_int [of 12] round_to_double_of_int [of 17]
    round_to_double_of_int [of 29] round_to_double_of_int [of 27]
  by simp_all

text \<open>
  C2 (as stated): for every itemCount \<ge> 0, rowHeight > 0, viewportHeight > 0,
  overscan \<ge> 0 and scrollOffset \<ge> 0 the hook returns exactly
  endIndex = min(itemCount, ceil((scrollOffset + viewportHeight) / rowHeight) + overscan).
  This fails where an operation rounds: with 500 items of height 60 in a viewport of height
  700, overscan 5 and the scroll offset \<open>20 + 2^-48\<close>, which is a double, the sum
  scrollOffset + viewportHeight is rounded to 720 and the hook computes the end index
  12 + 5 = 17, while the formula gives 13 + 5 = 18.
\<close>

theorem window_formulas_counterexample:
  "is_double (20 + 1 / 2 ^ 48)
   \<and> endIndex_of (replicate 500 (0::nat)) (20 + 1 / 2 ^ 48) 700 60 5 = Finite 17
   \<and> min (int (length (replicate 500 (0::nat))))
         (\<lceil>(20 + 1 / 2 ^ 48 + 700) / 60 :: real\<rceil> + 5) = 18
   \<and> endIndex_of (replicate 500 (0::nat)) (20 + 1 / 2 ^ 48) 700 60 5
       \<noteq> Finite (of_int (min (int (length (replicate 500 (0::nat))))
                              (\<lceil>(20 + 1 / 2 ^ 48 + 700) / 60 :: real\<rceil> + 5)))"
proof -
  have a: "js_add (Finite (20 + 1 / 2 ^ 48)) (Finite 700) = Finite 720"
    using sum_720 by (simp only: js_add.simps)
  have b: "js_div (Finite 720) (Finite 60) = Finite 12"
    by (simp add: small_ints)
  have c: "Math_ceil (Finite 12) = Finite 12"
    by simp
  have d: "js_add (Finite 12) (Finite (of_int 5)) = Finite 17"
    by (simp add: small_ints)
  have e: "Math_min (Finite (real (length (replicate 500 (0::nat))))) (Finite 17) = Finite 17"
    by (simp add: Math_min_def)
  have code: "endIndex_of (replicate 500 (0::nat)) (20 + 1 / 2 ^ 48) 700 60 5 = Finite 17"
    unfolding endIndex_of_def a b c d e ..
  have "\<lceil>(20 + 1 / 2 ^ 48 + 700) / 60 :: real\<rceil> = 13"
    by (rule ceiling_unique) simp_all
  then have formula: "min (int (length (replicate 500 (0::nat))))
         (\<lceil>(20 + 1 / 2 ^ 48 + 700) / 60 :: real\<rceil> + 5) = 18"
    by simp
  have differ: "endIndex_of (replicate 500 (0::nat)) (20 + 1 / 2 ^ 48) 700 60 5
       \<noteq> Finite (of_int (min (int (length (replicate 500 (0::nat))))
                              (\<lceil>(20 + 1 / 2 ^ 48 + 700) / 60 :: real\<rceil> + 5)))"
    unfolding code formula by simp
  from double_20 code formula differ show ?thesis
    by (intro conjI)
qed

text \<open>
  C2 (amended): when rowHeight > 0, viewportHeight > 0, overscan \<ge> 0 and
  scrollOffset \<ge> 0 are whole numbers with scrollOffset + viewportHeight + overscan below
  \<open>2^53\<close>, rowHeight at most \<open>2^53\<close> and itemCount * rowHeight at most \<open>2^53\<close>,
  the hook computes exactly
  startIndex = max(0, floor(scrollOffset / rowHeight) - overscan),
  endIndex = min(itemCount, ceil((scrollOffset + viewportHeight) / rowHeight) + overscan),
  a total content height of itemCount * rowHeight and a vertical translation of
  startIndex * rowHeight; the rows it hands out are the items at the indices from
  startIndex up to, not including, endIndex.
\<close>

theorem window_formulas:
  fixes items :: "'a list" and scrollOffset listHeight rowHeight overscanCount :: int
  assumes "0 < rowHeight" and "0 < listHeight" and "0 \<le> overscanCount"
    and "0 \<le> scrollOffset"
    and "scrollOffset + listHeight + overscanCount < 2 ^ 53" and "rowHeight \<le> 2 ^ 53"
    and "int (length items) * rowHeight \<le> 2 ^ 53"
  shows "(let w = useVirtualizedList items (of_int listHeight) (of_int rowHeight) overscanCount
                    (of_int scrollOffset);
              endIndex = endIndex_of items (of_int scrollOffset) (of_int listHeight)
                           (of_int rowHeight) overscanCount;
              si = max 0 (\<lfloor>of_int scrollOffset / of_int rowHeight :: real\<rfloor> - overscanCount);
              ei = min (int (length items))
                     (\<lceil>(of_int scrollOffset + of_int listHeight) / of_int rowHeight :: real\<rceil>
                        + overscanCount)
          in startIndex w = Finite (of_int si)
           \<and> endIndex = Finite (of_int ei)
           \<and> totalHeight w = Finite (real (length items) * of_int rowHeight)
           \<and> contentStyle_height w = Finite (real (length items) * of_int rowHeight)
           \<and> listStyle_translateY w = Finite (of_int si * of_int rowHeight)
           \<and> visibleItems w = take (nat (ei - si)) (drop (nat si) items))"
proof -
  have fl: "\<lfloor>of_int scrollOffset / of_int rowHeight :: real\<rfloor> = scrollOffset div rowHeight"
    by (rule floor_divide_of_int_eq)
  have sum: "(of_int scrollOffset + of_int listHeight :: real) = of_int (scrollOffset + listHeight)"
    by simp
  have "endIndex_of items (of_int scrollOffset) (of_int listHeight) (of_int rowHeight)
          overscanCount
        = Finite (of_int (min (int (length items))
            (\<lceil>of_int (scrollOffset + listHeight) / of_int rowHeight :: real\<rceil> + overscanCount)))"
    using assms(4,2,1,6,3,5) by (rule endIndex_exact)
  then show ?thesis
    unfolding Let_def fl sum
    by (simp add: window_exact [OF assms(4,2,1,3,5,6,7)])
qed

theorem window_formulas_witness:
  "(0::int) < 60 \<and> (0::int) < 700 \<and> (0::int) \<le> 5 \<and> (0::int) \<le> 1234
   \<and> (1234::int) + 700 + 5 < 2 ^ 53 \<and> (60::int) \<le> 2 ^ 53
   \<and> int (length [10, 11, 12 :: nat]) * 60 \<le> 2 ^ 53
   \<and> startIndex (useVirtualizedList [10, 11, 12 :: nat] 700 60 5 1234) = Finite 15
   \<and> endIndex_of [10, 11, 12 :: nat] 1234 700 60 5 = Finite 3
   \<and> totalHeight (useVirtualizedList [10, 11, 12 :: nat] 700 60 5 1234) = Finite 180
   \<and> listStyle_translateY (useVirtualizedList [10, 11, 12 :: nat] 700 60 5 1234) = Finite 900
   \<and> visibleItems (useVirtualizedList [10, 11, 12 :: nat] 700 60 5 1234) = []"
  using window_formulas [of 60 700 5 1234 "[10, 11, 12 :: nat]"]
  by (simp add: Let_def)









text \<open>
  C9: when the view sequence is empty, for every scroll offset (and every viewport height
  and overscan) the hook hands out no rows and a total content height of 0. Nothing in
  the hook can throw: it only does arithmetic on numbers and calls \<^verbatim>\<open>Math.max\<close>,
  \<^verbatim>\<open>Math.min\<close>, \<^verbatim>\<open>Math.floor\<close>, \<^verbatim>\<open>Math.ceil\<close> and \<^verbatim>\<open>slice\<close>, which are total,
  so the model has no error value and every function of it is total.
\<close>

theorem empty_view_window:
  assumes "0 < rowHeight"
  shows "(let items = [] :: 'a list;
              w = useVirtualizedList items listHeight rowHeight overscanCount scrollOffset
          in visibleItems w = [] \<and> totalHeight w = Finite 0 \<and> contentStyle_height w = Finite 0
           \<and> number_le (Finite 0) (startIndex w)
           \<and> number_le (endIndex_of items scrollOffset listHeight rowHeight overscanCount)
                (Finite 0))"
proof -
  have "js_add (Math_ceil (js_div (js_add (Finite scrollOffset) (Finite listHeight))
          (Finite rowHeight))) (Finite (of_int overscanCount)) \<noteq> NaN"
    using assms
    by (intro js_add_not_NaN Math_ceil_not_NaN js_div_pos_not_NaN) simp_all
  then have "number_le (endIndex_of ([] :: 'a list) scrollOffset listHeight rowHeight
      overscanCount) (Finite 0)"
    unfolding endIndex_of_def using Math_min_le [of _ 0] by simp
  moreover have "number_le (Finite 0) (startIndex_of scrollOffset rowHeight overscanCount)"
    using assms by (intro startIndex_nonneg) simp
  ultimately show ?thesis
    by (simp add: useVirtualizedList_def Let_def js_slice_Nil totalHeight_of_def
          round_to_double_zero)
qed

theorem empty_view_window_witness:
  "(0::real) < 60
   \<and> visibleItems (useVirtualizedList ([] :: nat list) 700 60 5 6000) = []
   \<and> totalHeight (useVirtualizedList ([] :: nat list) 700 60 5 6000) = Finite 0"
  using empty_view_window [where ?'a = nat, of 60 700 5 6000]
  by (simp add: Let_def)

section \<open>Properties of the generator and of the data source\<close>

lemma generateData_loop_eq:
  "generateData_loop random cnt i acc = acc @ map (make_row random) [i..<Suc cnt]"
proof (induction random cnt i acc rule: generateData_loop.induct)
  case (1 random cnt i acc)
  show ?case
  proof (cases "i \<le> cnt")
    case True
    then have "[i..<Suc cnt] = i # [Suc i..<Suc cnt]"
      by (simp add: upt_conv_Cons)
    with True "1.IH" show ?thesis
      by (subst generateData_loop.simps) simp
  next
    case False
    then show ?thesis
      by (subst generateData_loop.simps) simp
  qed
qed

lemma generateData_eq: "generateData random cnt = map (make_row random) [1..<Suc cnt]"
  by (simp add: generateData_def generateData_loop_eq del: upt_Suc)

lemma length_generateData: "length (generateData random cnt) = cnt"
  by (simp add: generateData_eq del: upt_Suc)

lemma length_initialFullData: "length (initialFullData random) = TOTAL_ROWS"
  by (simp add: initialFullData_def length_generateData)

lemma js_slice_nat:
  "js_slice xs (int a) (int b) = take (b - a) (drop a xs)"
proof (cases "a \<le> length xs")
  case True
  then show ?thesis
    by (cases "b \<le> length xs") (simp_all add: js_slice_def Let_def slice_index_def min_def)
next
  case False
  then show ?thesis
    by (simp add: js_slice_def Let_def slice_index_def min_def)
qed

lemma resume_step:
  assumes "0 < awaiting st" and "loadedCount st \<le> TOTAL_ROWS"
  shows "fetchMoreData_resume random st =
           st\<lparr>data := data st @ take (min CHUNK_SIZE (TOTAL_ROWS - loadedCount st))
                                   (drop (loadedCount st) (initialFullData random)),
              loadedCount := loadedCount st + min CHUNK_SIZE (TOTAL_ROWS - loadedCount st),
              hasMore := (loadedCount st + min CHUNK_SIZE (TOTAL_ROWS - loadedCount st)
                            < TOTAL_ROWS),
              isLoading := False,
              awaiting := awaiting st - 1\<rparr>"
proof -
  define full where "full = initialFullData random"
  define n where "n = min CHUNK_SIZE (TOTAL_ROWS - loadedCount st)"
  have len: "length full = TOTAL_ROWS"
    by (simp add: full_def length_initialFullData)
  have next_eq: "js_slice full (int (loadedCount st)) (int (loadedCount st + CHUNK_SIZE))
                  = take n (drop (loadedCount st) full)"
    by (simp only: js_slice_nat) (simp add: n_def len min_def)
  have next_len: "length (take n (drop (loadedCount st) full)) = n"
    by (simp add: n_def len)
  have zero: "n = 0 \<Longrightarrow> loadedCount st = TOTAL_ROWS"
    using assms(2) by (simp add: n_def CHUNK_SIZE_def min_def split: if_splits)
  have unfolded: "fetchMoreData_resume random st =
      (if 0 < n
       then st\<lparr>data := data st @ take n (drop (loadedCount st) full),
               loadedCount := loadedCount st + n,
               hasMore := (loadedCount st + n < TOTAL_ROWS)\<rparr>
       else st\<lparr>hasMore := False\<rparr>)\<lparr>isLoading := False, awaiting := awaiting st - 1\<rparr>"
    using assms(1)
    by (simp only: fetchMoreData_resume_def Let_def full_def [symmetric] next_eq next_len)
       simp
  show ?thesis
    unfolding unfolded n_def [symmetric] full_def [symmetric]
    using zero by (cases "n = 0") simp_all
qed

lemma run_snoc: "run random (es @ [e]) = step random (run random es) e"
  by (simp add: run_def)

lemma run_append: "run random (es @ es') = foldl (step random) (run random es) es'"
  by (simp add: run_def)

lemma initial_state:
  "loadedCount (useDataFetching random) = INITIAL_LOAD_COUNT"
  "data (useDataFetching random) = take INITIAL_LOAD_COUNT (initialFullData random)"
  "hasMore (useDataFetching random)"
  "\<not> isLoading (useDataFetching random)"
  "awaiting (useDataFetching random) = 0"
  "\<not> captured_isLoading (useDataFetching random)"
  "captured_hasMore (useDataFetching random)"
  using js_slice_nat [of "initialFullData random" 0 INITIAL_LOAD_COUNT]
  by (simp_all add: useDataFetching_def TOTAL_ROWS_def INITIAL_LOAD_COUNT_def)

lemma render_fields:
  "data (render st) = data st"
  "loadedCount (render st) = loadedCount st"
  "hasMore (render st) = hasMore st"
  "isLoading (render st) = isLoading st"
  "awaiting (render st) = awaiting st"
  "captured_isLoading (render st) = isLoading st"
  "captured_hasMore (render st) = hasMore st"
  by (simp_all add: render_def)

lemma fetchMoreData_fields:
  "data (fetchMoreData st) = data st"
  "loadedCount (fetchMoreData st) = loadedCount st"
  "hasMore (fetchMoreData st) = hasMore st"
  "captured_isLoading (fetchMoreData st) = captured_isLoading st"
  "captured_hasMore (fetchMoreData st) = captured_hasMore st"
  by (simp_all add: fetchMoreData_def)

text \<open>
  The invariant of the data source. It holds whatever the interleaving of renders,
  requests and timers, also with several calls suspended at once.
\<close>

lemma run_invariant:
  "loadedCount (run random es) \<le> TOTAL_ROWS
   \<and> data (run random es) = take (loadedCount (run random es)) (initialFullData random)
   \<and> hasMore (run random es) = (loadedCount (run random es) < TOTAL_ROWS)"
proof (induction es rule: rev_induct)
  case Nil
  have "INITIAL_LOAD_COUNT < TOTAL_ROWS"
    by (simp add: TOTAL_ROWS_def INITIAL_LOAD_COUNT_def)
  then show ?case
    by (simp add: run_def initial_state)
next
  case (snoc e es)
  define st where "st = run random es"
  note inv = snoc.IH [folded st_def]
  show ?case
  proof (cases e)
    case Render
    with inv show ?thesis
      by (simp add: run_snoc st_def [symmetric] render_fields)
  next
    case LoadRequest
    with inv show ?thesis
      by (simp add: run_snoc st_def [symmetric] fetchMoreData_fields)
  next
    case TimerFired
    show ?thesis
    proof (cases "awaiting st = 0")
      case True
      with inv TimerFired show ?thesis
        by (simp add: run_snoc st_def [symmetric] fetchMoreData_resume_def)
    next
      case False
      then have "fetchMoreData_resume random st =
           st\<lparr>data := data st @ take (min CHUNK_SIZE (TOTAL_ROWS - loadedCount st))
                                   (drop (loadedCount st) (initialFullData random)),
              loadedCount := loadedCount st + min CHUNK_SIZE (TOTAL_ROWS - loadedCount st),
              hasMore := (loadedCount st + min CHUNK_SIZE (TOTAL_ROWS - loadedCount st)
                            < TOTAL_ROWS),
              isLoading := False,
              awaiting := awaiting st - 1\<rparr>"
        using inv by (intro resume_step) simp_all
      moreover have "data st = take (loadedCount st) (initialFullData random)"
        using inv by simp
      moreover have "loadedCount st + min CHUNK_SIZE (TOTAL_ROWS - loadedCount st) \<le> TOTAL_ROWS"
        using inv by linarith
      ultimately show ?thesis
        using inv TimerFired False
        by (simp add: run_snoc st_def [symmetric] take_add split: if_splits)
    qed
  qed
qed

text \<open>
  A completed load request in a state that is not loading: whatever the number of
  suspended calls, the rows and the count advance by the next chunk.
\<close>

lemma load_fresh:
  assumes "\<not> isLoading st" and "loadedCount st \<le> TOTAL_ROWS"
    and "hasMore st = (loadedCount st < TOTAL_ROWS)"
  shows "data (load random st)
           = data st @ take (min CHUNK_SIZE (TOTAL_ROWS - loadedCount st))
                         (drop (loadedCount st) (initialFullData random))"
    and "loadedCount (load random st)
           = loadedCount st + min CHUNK_SIZE (TOTAL_ROWS - loadedCount st)"
    and "hasMore (load random st)
           = (loadedCount st + min CHUNK_SIZE (TOTAL_ROWS - loadedCount st) < TOTAL_ROWS)"
proof -
  define n where "n = min CHUNK_SIZE (TOTAL_ROWS - loadedCount st)"
  define st1 where "st1 = fetchMoreData (render st)"
  have st1: "data st1 = data st" "loadedCount st1 = loadedCount st" "hasMore st1 = hasMore st"
    by (simp_all add: st1_def fetchMoreData_fields render_fields)
  have goal: "data (fetchMoreData_resume random st1)
                = data st @ take n (drop (loadedCount st) (initialFullData random))
            \<and> loadedCount (fetchMoreData_resume random st1) = loadedCount st + n
            \<and> hasMore (fetchMoreData_resume random st1) = (loadedCount st + n < TOTAL_ROWS)"
  proof (cases "awaiting st1 = 0")
    case True
    have "\<not> hasMore st"
    proof
      assume "hasMore st"
      then have "awaiting st1 = awaiting st + 1"
        using assms(1) by (simp add: st1_def fetchMoreData_def render_def)
      with True show False by simp
    qed
    then have "n = 0"
      using assms(2,3) by (simp add: n_def)
    with True \<open>\<not> hasMore st\<close> assms(3) show ?thesis
      by (simp add: fetchMoreData_resume_def st1)
  next
    case False
    then have "fetchMoreData_resume random st1 =
           st1\<lparr>data := data st1 @ take (min CHUNK_SIZE (TOTAL_ROWS - loadedCount st1))
                                   (drop (loadedCount st1) (initialFullData random)),
              loadedCount := loadedCount st1 + min CHUNK_SIZE (TOTAL_ROWS - loadedCount st1),
              hasMore := (loadedCount st1 + min CHUNK_SIZE (TOTAL_ROWS - loadedCount st1)
                            < TOTAL_ROWS),
              isLoading := False,
              awaiting := awaiting st1 - 1\<rparr>"
      using assms(2) by (intro resume_step) (simp_all add: st1)
    then show ?thesis
      by (simp add: st1 n_def)
  qed
  from goal show "data (load random st)
           = data st @ take (min CHUNK_SIZE (TOTAL_ROWS - loadedCount st))
                         (drop (loadedCount st) (initialFullData random))"
    by (simp add: load_def render_fields st1_def [symmetric] n_def)
  from goal show "loadedCount (load random st)
           = loadedCount st + min CHUNK_SIZE (TOTAL_ROWS - loadedCount st)"
    by (simp add: load_def render_fields st1_def [symmetric] n_def)
  from goal show "hasMore (load random st)
           = (loadedCount st + min CHUNK_SIZE (TOTAL_ROWS - loadedCount st) < TOTAL_ROWS)"
    by (simp add: load_def render_fields st1_def [symmetric] n_def)
qed

lemma load_settled:
  assumes "awaiting st = 0" and "\<not> isLoading st"
  shows "awaiting (load random st) = 0"
    and "\<not> isLoading (load random st)"
    and "\<not> captured_isLoading (load random st)"
    and "captured_hasMore (load random st) = hasMore (load random st)"
  using assms
  by (simp_all add: load_def render_def fetchMoreData_def fetchMoreData_resume_def Let_def)

lemma load_exhausted:
  assumes "awaiting st = 0" and "\<not> hasMore st"
    and "captured_isLoading st = isLoading st" and "\<not> captured_hasMore st"
  shows "load random st = st"
  using assms
  by (cases st) (simp add: load_def render_def fetchMoreData_def fetchMoreData_resume_def)

lemma loads_closed_form:
  "loadedCount ((load random ^^ k) (useDataFetching random))
       = min TOTAL_ROWS (INITIAL_LOAD_COUNT + k * CHUNK_SIZE)
   \<and> data ((load random ^^ k) (useDataFetching random))
       = take (min TOTAL_ROWS (INITIAL_LOAD_COUNT + k * CHUNK_SIZE)) (initialFullData random)
   \<and> hasMore ((load random ^^ k) (useDataFetching random))
       = (INITIAL_LOAD_COUNT + k * CHUNK_SIZE < TOTAL_ROWS)
   \<and> \<not> isLoading ((load random ^^ k) (useDataFetching random))
   \<and> awaiting ((load random ^^ k) (useDataFetching random)) = 0
   \<and> \<not> captured_isLoading ((load random ^^ k) (useDataFetching random))
   \<and> captured_hasMore ((load random ^^ k) (useDataFetching random))
       = (INITIAL_LOAD_COUNT + k * CHUNK_SIZE < TOTAL_ROWS)"
proof (induction k)
  case 0
  show ?case
    by (simp add: initial_state) (simp add: TOTAL_ROWS_def INITIAL_LOAD_COUNT_def)
next
  case (Suc k)
  define st where "st = (load random ^^ k) (useDataFetching random)"
  note ih = Suc.IH [folded st_def]
  have idle: "\<not> isLoading st" "awaiting st = 0"
    using ih by simp_all
  have inv: "loadedCount st \<le> TOTAL_ROWS" "hasMore st = (loadedCount st < TOTAL_ROWS)"
    using ih by (simp_all add: min_def)
  note fresh = load_fresh [OF idle(1) inv, of random]
  note settled = load_settled [OF idle(2) idle(1), of random]
  have count: "loadedCount st + min CHUNK_SIZE (TOTAL_ROWS - loadedCount st)
                   = min TOTAL_ROWS (INITIAL_LOAD_COUNT + Suc k * CHUNK_SIZE)"
  proof -
    have "loadedCount st = min TOTAL_ROWS (INITIAL_LOAD_COUNT + k * CHUNK_SIZE)"
      using ih by simp
    moreover have "Suc k * CHUNK_SIZE = k * CHUNK_SIZE + CHUNK_SIZE"
      by simp
    ultimately show ?thesis
      by linarith
  qed
  have rows: "data st @ take (min CHUNK_SIZE (TOTAL_ROWS - loadedCount st))
                                   (drop (loadedCount st) (initialFullData random))
                 = take (loadedCount st + min CHUNK_SIZE (TOTAL_ROWS - loadedCount st))
                     (initialFullData random)"
    using ih by (simp add: take_add)
  have more: "(min TOTAL_ROWS (INITIAL_LOAD_COUNT + Suc k * CHUNK_SIZE) < TOTAL_ROWS)
                   = (INITIAL_LOAD_COUNT + Suc k * CHUNK_SIZE < TOTAL_ROWS)"
    by (simp add: min_def)
  have "(load random ^^ Suc k) (useDataFetching random) = load random st"
    by (simp add: st_def)
  then show ?case
    by (simp only: fresh settled rows count more) simp
qed

lemma concat_replicate_Suc: "concat (replicate (Suc k) xs) = concat (replicate k xs) @ xs"
  by (induction k) simp_all

lemma run_loads:
  "run random (concat (replicate k [Render, LoadRequest, TimerFired, Render]))
     = (load random ^^ k) (useDataFetching random)"
proof (induction k)
  case 0
  show ?case by (simp add: run_def)
next
  case (Suc k)
  have "concat (replicate (Suc k) [Render, LoadRequest, TimerFired, Render])
          = concat (replicate k [Render, LoadRequest, TimerFired, Render])
              @ [Render, LoadRequest, TimerFired, Render]"
    by (rule concat_replicate_Suc)
  then show ?case
    using Suc by (simp add: run_append load_def)
qed

lemma loadedCount_mono:
  "loadedCount (run random es) \<le> loadedCount (run random (es @ es'))"
proof (induction es' rule: rev_induct)
  case Nil
  show ?case by simp
next
  case (snoc e es')
  define st where "st = run random (es @ es')"
  have "loadedCount st \<le> loadedCount (step random st e)"
  proof (cases e)
    case Render
    then show ?thesis by (simp add: render_def)
  next
    case LoadRequest
    then show ?thesis by (simp add: fetchMoreData_def)
  next
    case TimerFired
    then show ?thesis by (simp add: fetchMoreData_resume_def Let_def)
  qed
  with snoc show ?case
    by (simp add: st_def append_assoc [symmetric] run_snoc del: append_assoc)
qed

lemma fetchMoreData_guard:
  "captured_isLoading st \<or> \<not> captured_hasMore st \<Longrightarrow> fetchMoreData st = st"
  by (simp add: fetchMoreData_def)

section \<open>Properties of sorting\<close>

lemma mset_insert_by: "mset (insert_by c x ys) = add_mset x (mset ys)"
  by (induction ys) simp_all

lemma mset_js_sort: "mset (js_sort c xs) = mset xs"
  by (induction xs) (simp_all add: mset_insert_by)

lemma set_insert_by: "set (insert_by c x ys) = insert x (set ys)"
  using mset_insert_by [of c x ys] by (metis set_mset_mset set_mset_add_mset_insert)

lemma sorted_insert_by:
  assumes total: "\<And>a b. c a b \<le> 0 \<or> c b a \<le> 0"
    and trans: "\<And>a b d. c a b \<le> 0 \<Longrightarrow> c b d \<le> 0 \<Longrightarrow> c a d \<le> 0"
    and "sorted_wrt (\<lambda>a b. c a b \<le> 0) ys"
  shows "sorted_wrt (\<lambda>a b. c a b \<le> (0::int)) (insert_by c x ys)"
  using assms(3)
proof (induction ys)
  case Nil
  then show ?case by simp
next
  case (Cons y ys)
  show ?case
  proof (cases "c x y \<le> 0")
    case True
    then have "\<forall>z\<in>set ys. c x z \<le> 0"
      using Cons.prems trans by auto
    with True Cons.prems show ?thesis by simp
  next
    case False
    then have "c y x \<le> 0"
      using total [of x y] by simp
    with False Cons show ?thesis
      by (auto simp: set_insert_by)
  qed
qed

lemma sorted_js_sort:
  assumes "\<And>a b. c a b \<le> 0 \<or> c b a \<le> 0"
    and "\<And>a b d. c a b \<le> 0 \<Longrightarrow> c b d \<le> 0 \<Longrightarrow> c a d \<le> 0"
  shows "sorted_wrt (\<lambda>a b. c a b \<le> (0::int)) (js_sort c xs)"
proof (induction xs)
  case Nil
  show ?case by simp
next
  case (Cons x xs)
  then show ?case
    using sorted_insert_by [of c "js_sort c xs" x, OF assms] by simp
qed

lemma js_sort_sorted:
  "sorted_wrt (\<lambda>a b. c a b \<le> (0::int)) xs \<Longrightarrow> js_sort c xs = xs"
proof (induction xs)
  case Nil
  show ?case by simp
next
  case (Cons x xs)
  then have "js_sort c xs = xs" by simp
  moreover have "insert_by c x xs = x # xs"
    using Cons.prems by (cases xs) simp_all
  ultimately show ?case by simp
qed

lemma sorted_wrt_unique:
  assumes "sorted_wrt R xs" and "sorted_wrt R ys" and "mset xs = mset ys"
    and "\<And>a b. a \<in> set xs \<Longrightarrow> b \<in> set xs \<Longrightarrow> R a b \<Longrightarrow> R b a \<Longrightarrow> a = b"
  shows "xs = ys"
  using assms
proof (induction xs arbitrary: ys)
  case Nil
  then show ?case by simp
next
  case (Cons x xs)
  from Cons.prems(3) obtain y ys' where ys: "ys = y # ys'"
    by (cases ys) auto
  have sets: "set (x # xs) = set ys"
    using Cons.prems(3) by (metis set_mset_mset)
  have "x = y"
  proof (rule ccontr)
    assume neq: "x \<noteq> y"
    then have "x \<in> set ys'" and "y \<in> set xs"
      using sets ys by auto
    then have "R y x" and "R x y"
      using Cons.prems(1,2) ys by auto
    moreover have "x \<in> set (x # xs)" and "y \<in> set (x # xs)"
      using \<open>y \<in> set xs\<close> by simp_all
    ultimately show False
      using Cons.prems(4) neq by blast
  qed
  moreover have "xs = ys'"
  proof (rule Cons.IH)
    show "sorted_wrt R xs" using Cons.prems(1) by simp
    show "sorted_wrt R ys'" using Cons.prems(2) ys by simp
    show "mset xs = mset ys'" using Cons.prems(3) ys \<open>x = y\<close> by simp
    show "\<And>a b. a \<in> set xs \<Longrightarrow> b \<in> set xs \<Longrightarrow> R a b \<Longrightarrow> R b a \<Longrightarrow> a = b"
      using Cons.prems(4) by simp
  qed
  ultimately show ?case using ys by simp
qed

lemma compare_rows_le:
  "compare_rows k d a b \<le> 0 \<longleftrightarrow>
     (if d = Asc then \<not> js_less (row_prop b k) (row_prop a k)
      else \<not> js_less (row_prop a k) (row_prop b k))"
  by (cases k) (auto simp: compare_rows_def Let_def)

lemma compare_rows_total: "compare_rows k d a b \<le> 0 \<or> compare_rows k d b a \<le> 0"
  unfolding compare_rows_le by (cases k) auto

lemma compare_rows_trans:
  "compare_rows k d a b \<le> 0 \<Longrightarrow> compare_rows k d b c \<le> 0 \<Longrightarrow> compare_rows k d a c \<le> 0"
  unfolding compare_rows_le by (cases k) (auto split: if_splits)

lemma compare_rows_antisym:
  "compare_rows k d a b \<le> 0 \<Longrightarrow> compare_rows k d b a \<le> 0 \<Longrightarrow> row_prop a k = row_prop b k"
  unfolding compare_rows_le by (cases k) (auto split: if_splits)

lemma compare_rows_flip: "compare_rows k Desc a b \<le> 0 \<longleftrightarrow> compare_rows k Asc b a \<le> 0"
  unfolding compare_rows_le by simp

lemma sorted_sortedData:
  "sorted_wrt (\<lambda>a b. compare_rows k d a b \<le> 0) (sortedData rows k d)"
  unfolding sortedData_def
  using sorted_js_sort [of "compare_rows k d" rows, OF compare_rows_total compare_rows_trans]
  by simp

lemma mset_sortedData: "mset (sortedData rows k d) = mset rows"
  by (simp add: sortedData_def mset_js_sort)

lemma set_sortedData: "set (sortedData rows k d) = set rows"
  using mset_sortedData [of rows k d] by (metis set_mset_mset)

text \<open>
  The sort is stable: rows with the same value under the sort key keep the order they
  had in the input.
\<close>

lemma filter_insert_by:
  assumes "\<And>a b. P a \<Longrightarrow> P b \<Longrightarrow> c a b \<le> (0::int)"
  shows "filter P (insert_by c x ys) = filter P (x # ys)"
proof (induction ys)
  case Nil
  show ?case by simp
next
  case (Cons y ys)
  show ?case
  proof (cases "c x y \<le> 0")
    case True
    then show ?thesis by simp
  next
    case False
    then have "\<not> (P x \<and> P y)"
      using assms [of x y] by blast
    with False Cons show ?thesis
      by auto
  qed
qed

lemma js_sort_stable:
  assumes "\<And>a b. P a \<Longrightarrow> P b \<Longrightarrow> c a b \<le> (0::int)"
  shows "filter P (js_sort c xs) = filter P xs"
proof (induction xs)
  case Nil
  show ?case by simp
next
  case (Cons x xs)
  have "filter P (js_sort c (x # xs)) = filter P (x # js_sort c xs)"
    using assms by (simp only: js_sort.simps filter_insert_by)
  with Cons show ?case by simp
qed

lemma sortedData_stable:
  "filter (\<lambda>r. row_prop r k = v) (sortedData rows k d) = filter (\<lambda>r. row_prop r k = v) rows"
proof -
  have "compare_rows k d a b \<le> 0" if "row_prop a k = v" and "row_prop b k = v" for a b
    using that unfolding compare_rows_le by (cases v) auto
  then have "filter (\<lambda>r. row_prop r k = v) (js_sort (compare_rows k d) rows)
               = filter (\<lambda>r. row_prop r k = v) rows"
    by (rule js_sort_stable)
  then show ?thesis
    by (simp add: sortedData_def)
qed

text \<open>
  C4: for every sequence of rows, every sort key and every direction, sorting a second
  time with the same key and direction gives the same sequence as sorting once: the
  same rows in the same order.
\<close>
theorem sortedData_idempotent:
  "sortedData (sortedData rows k d) k d = sortedData rows k d"
proof -
  have "js_sort (compare_rows k d) (sortedData rows k d) = sortedData rows k d"
    using sorted_sortedData by (rule js_sort_sorted)
  then show ?thesis
    by (simp add: sortedData_def [of "sortedData rows k d"])
qed

theorem sortedData_idempotent_witness:
  "sortedData
     [\<lparr>id_field = 1, name = ''b'', numericValue = 7, status = ''Completed''\<rparr>,
      \<lparr>id_field = 2, name = ''a'', numericValue = 7, status = ''Completed''\<rparr>,
      \<lparr>id_field = 3, name = ''c'', numericValue = 2, status = ''Pending''\<rparr>] NumericValue Asc
   = [\<lparr>id_field = 3, name = ''c'', numericValue = 2, status = ''Pending''\<rparr>,
      \<lparr>id_field = 1, name = ''b'', numericValue = 7, status = ''Completed''\<rparr>,
      \<lparr>id_field = 2, name = ''a'', numericValue = 7, status = ''Completed''\<rparr>]
   \<and> sortedData
       [\<lparr>id_field = 3, name = ''c'', numericValue = 2, status = ''Pending''\<rparr>,
        \<lparr>id_field = 1, name = ''b'', numericValue = 7, status = ''Completed''\<rparr>,
        \<lparr>id_field = 2, name = ''a'', numericValue = 7, status = ''Completed''\<rparr>] NumericValue Asc
     = [\<lparr>id_field = 3, name = ''c'', numericValue = 2, status = ''Pending''\<rparr>,
        \<lparr>id_field = 1, name = ''b'', numericValue = 7, status = ''Completed''\<rparr>,
        \<lparr>id_field = 2, name = ''a'', numericValue = 7, status = ''Completed''\<rparr>]"
proof -
  have once: "sortedData
     [\<lparr>id_field = 1, name = ''b'', numericValue = 7, status = ''Completed''\<rparr>,
      \<lparr>id_field = 2, name = ''a'', numericValue = 7, status = ''Completed''\<rparr>,
      \<lparr>id_field = 3, name = ''c'', numericValue = 2, status = ''Pending''\<rparr>] NumericValue Asc
   = [\<lparr>id_field = 3, name = ''c'', numericValue = 2, status = ''Pending''\<rparr>,
      \<lparr>id_field = 1, name = ''b'', numericValue = 7, status = ''Completed''\<rparr>,
      \<lparr>id_field = 2, name = ''a'', numericValue = 7, status = ''Completed''\<rparr>]"
    by (simp add: sortedData_def compare_rows_def)
  show ?thesis
    using sortedData_idempotent
      [of "[\<lparr>id_field = 1, name = ''b'', numericValue = 7, status = ''Completed''\<rparr>,
            \<lparr>id_field = 2, name = ''a'', numericValue = 7, status = ''Completed''\<rparr>,
            \<lparr>id_field = 3, name = ''c'', numericValue = 2, status = ''Pending''\<rparr>]"
          NumericValue Asc]
    unfolding once by simp
qed

text \<open>
  C5: for a sequence of rows whose values under the sort key are pairwise distinct,
  sorting descending by that key gives exactly the reverse of sorting ascending by it.
\<close>
theorem sortedData_desc_rev:
  assumes "distinct (map (\<lambda>r. row_prop r k) rows)"
  shows "sortedData rows k Desc = rev (sortedData rows k Asc)"
proof (rule sorted_wrt_unique)
  show "sorted_wrt (\<lambda>a b. compare_rows k Desc a b \<le> 0) (sortedData rows k Desc)"
    by (rule sorted_sortedData)
  show "sorted_wrt (\<lambda>a b. compare_rows k Desc a b \<le> 0) (rev (sortedData rows k Asc))"
    using sorted_sortedData [of k Asc rows]
    by (simp add: sorted_wrt_rev compare_rows_flip)
  show "mset (sortedData rows k Desc) = mset (rev (sortedData rows k Asc))"
    by (simp add: mset_sortedData)
next
  fix a b
  assume "a \<in> set (sortedData rows k Desc)" and "b \<in> set (sortedData rows k Desc)"
  then have "a \<in> set rows" and "b \<in> set rows"
    by (simp_all add: set_sortedData)
  moreover assume "compare_rows k Desc a b \<le> 0" and "compare_rows k Desc b a \<le> 0"
  then have "row_prop a k = row_prop b k"
    by (rule compare_rows_antisym)
  moreover have "inj_on (\<lambda>r. row_prop r k) (set rows)"
    using assms by (simp add: distinct_map)
  ultimately show "a = b"
    by (auto dest: inj_onD)
qed

theorem sortedData_desc_rev_witness:
  "distinct (map (\<lambda>r. row_prop r Name)
     [\<lparr>id_field = 9, name = ''Item Name 9'', numericValue = 7, status = ''Pending''\<rparr>,
      \<lparr>id_field = 10, name = ''Item Name 10'', numericValue = 7, status = ''Active''\<rparr>,
      \<lparr>id_field = 11, name = ''Item Name 11'', numericValue = 2, status = ''Completed''\<rparr>])
   \<and> sortedData
       [\<lparr>id_field = 9, name = ''Item Name 9'', numericValue = 7, status = ''Pending''\<rparr>,
        \<lparr>id_field = 10, name = ''Item Name 10'', numericValue = 7, status = ''Active''\<rparr>,
        \<lparr>id_field = 11, name = ''Item Name 11'', numericValue = 2, status = ''Completed''\<rparr>]
       Name Desc
     = rev [\<lparr>id_field = 10, name = ''Item Name 10'', numericValue = 7, status = ''Active''\<rparr>,
            \<lparr>id_field = 11, name = ''Item Name 11'', numericValue = 2, status = ''Completed''\<rparr>,
            \<lparr>id_field = 9, name = ''Item Name 9'', numericValue = 7, status = ''Pending''\<rparr>]"
proof -
  define rows where "rows =
       [\<lparr>id_field = 9, name = ''Item Name 9'', numericValue = 7, status = ''Pending''\<rparr>,
        \<lparr>id_field = 10, name = ''Item Name 10'', numericValue = 7, status = ''Active''\<rparr>,
        \<lparr>id_field = 11, name = ''Item Name 11'', numericValue = 2, status = ''Completed''\<rparr>]"
  have d: "distinct (map (\<lambda>r. row_prop r Name) rows)"
    by (simp add: rows_def)
  have asc: "sortedData rows Name Asc
     = [\<lparr>id_field = 10, name = ''Item Name 10'', numericValue = 7, status = ''Active''\<rparr>,
        \<lparr>id_field = 11, name = ''Item Name 11'', numericValue = 2, status = ''Completed''\<rparr>,
        \<lparr>id_field = 9, name = ''Item Name 9'', numericValue = 7, status = ''Pending''\<rparr>]"
    by (simp add: rows_def sortedData_def compare_rows_def)
  show ?thesis
    using d sortedData_desc_rev [OF d] unfolding asc unfolding rows_def by simp
qed

section \<open>Properties of filtering\<close>

lemma digit_char_in: "d < 10 \<Longrightarrow> digit_char d \<in> set ''0123456789''"
  unfolding digit_char_def by (rule nth_mem) simp

lemma set_digits: "set (digits n) \<subseteq> set ''0123456789''"
proof (induction n rule: digits.induct)
  case (1 n)
  show ?case
  proof (cases "n < 10")
    case True
    then show ?thesis
      using digit_char_in [of n] by (subst digits.simps) simp
  next
    case False
    moreover have "digit_char (n mod 10) \<in> set ''0123456789''"
      by (rule digit_char_in) simp
    ultimately show ?thesis
      using "1.IH" by (subst digits.simps) simp
  qed
qed

lemma js_includes_set: "js_includes hay needle \<Longrightarrow> set needle \<subseteq> set hay"
proof (induction hay)
  case Nil
  then show ?case by simp
next
  case (Cons c cs)
  from Cons.prems have "prefix needle (c # cs) \<or> js_includes cs needle"
    by simp
  then show ?case
  proof
    assume "prefix needle (c # cs)"
    then show ?thesis by (rule set_mono_prefix)
  next
    assume "js_includes cs needle"
    then have "set needle \<subseteq> set cs" by (rule Cons.IH)
    then show ?thesis by auto
  qed
qed

lemma lower_digits_name:
  "\<forall>c \<in> set (''Item Name '' @ ''0123456789''). toLowerCase_char c \<noteq> CHR ''c''"
  by code_simp

lemma c_not_in_name: "CHR ''c'' \<notin> set (toLowerCase (''Item Name '' @ digits n))"
proof
  define s where "s = ''Item Name '' @ digits n"
  assume "CHR ''c'' \<in> set (toLowerCase (''Item Name '' @ digits n))"
  then have "CHR ''c'' \<in> toLowerCase_char ` set s"
    by (simp only: toLowerCase_def set_map s_def)
  then obtain ch where ch: "ch \<in> set s" "CHR ''c'' = toLowerCase_char ch"
    by (rule imageE)
  have "set s \<subseteq> set (''Item Name '' @ ''0123456789'')"
    unfolding s_def set_append using set_digits [of n] by (rule Un_mono [OF subset_refl])
  with ch(1) have "ch \<in> set (''Item Name '' @ ''0123456789'')"
    by (rule subsetD [rotated])
  with lower_digits_name have "toLowerCase_char ch \<noteq> CHR ''c''"
    by (rule bspec)
  with ch(2) show False
    by simp
qed

lemma c_not_in_digits: "CHR ''c'' \<notin> set (digits n)"
  using set_digits [of n] by auto

lemma status_words:
  "js_includes (toLowerCase ''Active'') ''active''"
  "\<not> js_includes (toLowerCase ''Pending'') ''active''"
  "\<not> js_includes (toLowerCase ''Completed'') ''active''"
  "toLowerCase ''active'' = ''active''"
  by code_simp+

lemma matches_make_row:
  "matches ''active'' (make_row random i) \<longleftrightarrow> status (make_row random i) = ''Active''"
proof -
  have "\<not> js_includes (toString (int i)) ''active''"
    using js_includes_set [of "digits i" "''active''"] c_not_in_digits [of i]
    by (auto simp: toString_def)
  moreover have "\<not> js_includes (toLowerCase (''Item Name '' @ toString (int i))) ''active''"
    using js_includes_set [of "toLowerCase (''Item Name '' @ digits i)" "''active''"]
      c_not_in_name [of i]
    by (auto simp: toString_def)
  ultimately show ?thesis
    by (simp add: matches_def make_row_def status_words)
qed

lemma filter_generated:
  assumes "set rows \<subseteq> range (make_row random)"
  shows "filteredAndSortedData rows ''active'' = filter (\<lambda>r. status r = ''Active'') rows"
proof -
  have "matches ''active'' r \<longleftrightarrow> status r = ''Active''" if "r \<in> set rows" for r
    using assms that matches_make_row by auto
  then show ?thesis
    by (simp add: filteredAndSortedData_def status_words cong: filter_cong)
qed

lemma set_generateData: "set (generateData random cnt) \<subseteq> range (make_row random)"
  by (auto simp: generateData_eq simp del: upt_Suc)

lemma status_make_row:
  "status (make_row random i) = ''Active'' \<longleftrightarrow> id_field (make_row random i) mod 5 = 0"
proof -
  have "(int i mod 5 = 0) = (i mod 5 = 0)"
    by presburger
  then show ?thesis
    by (simp add: make_row_def)
qed

text \<open>
  C6: over the rows of the data generator, filtering with the query \<open>active\<close> returns
  exactly the subsequence of the rows whose status is \<open>Active\<close>, which are the rows
  whose id is a multiple of 5. The same holds for the table itself, whatever has been
  loaded and however it is sorted.
\<close>
theorem filter_active:
  "filteredAndSortedData (generateData random cnt) ''active''
     = filter (\<lambda>r. status r = ''Active'') (generateData random cnt)
   \<and> filteredAndSortedData (generateData random cnt) ''active''
     = filter (\<lambda>r. id_field r mod 5 = 0) (generateData random cnt)
   \<and> filteredAndSortedData (sortedData (data (run random es)) sortBy sortDirection) ''active''
     = filter (\<lambda>r. status r = ''Active'') (sortedData (data (run random es)) sortBy sortDirection)"
proof -
  have gen: "set (generateData random cnt) \<subseteq> range (make_row random)"
    by (rule set_generateData)
  have one: "filteredAndSortedData (generateData random cnt) ''active''
     = filter (\<lambda>r. status r = ''Active'') (generateData random cnt)"
    using gen by (rule filter_generated)
  have "filter (\<lambda>r. status r = ''Active'') (generateData random cnt)
          = filter (\<lambda>r. id_field r mod 5 = 0) (generateData random cnt)"
    using gen by (intro filter_cong refl) (auto simp: status_make_row)
  with one have two: "filteredAndSortedData (generateData random cnt) ''active''
     = filter (\<lambda>r. id_field r mod 5 = 0) (generateData random cnt)"
    by simp
  have "data (run random es) = take (loadedCount (run random es)) (initialFullData random)"
    using run_invariant [of random es] by simp
  then have "set (data (run random es)) \<subseteq> set (generateData random TOTAL_ROWS)"
    by (simp add: initialFullData_def set_take_subset)
  then have "set (sortedData (data (run random es)) sortBy sortDirection)
               \<subseteq> range (make_row random)"
    using set_generateData [of random TOTAL_ROWS] by (simp add: set_sortedData)
  then have three: "filteredAndSortedData
        (sortedData (data (run random es)) sortBy sortDirection) ''active''
     = filter (\<lambda>r. status r = ''Active'')
         (sortedData (data (run random es)) sortBy sortDirection)"
    by (rule filter_generated)
  from one two three show ?thesis by blast
qed

theorem filter_active_witness:
  "filteredAndSortedData (generateData (\<lambda>i. 0) 10) ''active''
     = [\<lparr>id_field = 5, name = ''Item Name 5'', numericValue = 0, status = ''Active''\<rparr>,
        \<lparr>id_field = 10, name = ''Item Name 10'', numericValue = 0, status = ''Active''\<rparr>]"
proof -
  have "filter (\<lambda>r. status r = ''Active'') (generateData (\<lambda>i. 0) 10)
     = [\<lparr>id_field = 5, name = ''Item Name 5'', numericValue = 0, status = ''Active''\<rparr>,
        \<lparr>id_field = 10, name = ''Item Name 10'', numericValue = 0, status = ''Active''\<rparr>]"
    by code_simp
  then show ?thesis
    using filter_active [of "\<lambda>i. 0" 10 "[]" Id Asc] by simp
qed

section \<open>Loading\<close>

text \<open>
  C7: the data source starts with a loaded count of 500. After one completed load
  request the count is 1000 and \<open>hasMore\<close> is true; after 19 completed load requests
  the count is 10000, the whole data set is loaded and \<open>hasMore\<close> is false; a 20th load
  request changes nothing. In every state the data source can reach, a load request that
  runs to completion appends exactly min(CHUNK_SIZE, remaining) rows, the next ones of the
  full data set, and advances the loaded count by that number.
\<close>
theorem loading_schedule:
  "loadedCount (useDataFetching random) = 500
   \<and> loadedCount (load random (useDataFetching random)) = 1000
   \<and> hasMore (load random (useDataFetching random))
   \<and> loadedCount ((load random ^^ 19) (useDataFetching random)) = 10000
   \<and> \<not> hasMore ((load random ^^ 19) (useDataFetching random))
   \<and> data ((load random ^^ 19) (useDataFetching random)) = initialFullData random
   \<and> fetchMoreData ((load random ^^ 19) (useDataFetching random))
       = (load random ^^ 19) (useDataFetching random)
   \<and> (load random ^^ 20) (useDataFetching random) = (load random ^^ 19) (useDataFetching random)
   \<and> (let st = run random es; n = min CHUNK_SIZE (TOTAL_ROWS - loadedCount st)
      in \<not> isLoading st \<longrightarrow>
           data (load random st)
             = data st @ take n (drop (loadedCount st) (initialFullData random))
         \<and> length (data (load random st)) = length (data st) + n
         \<and> loadedCount (load random st) = loadedCount st + n)"
proof -
  define init where "init = useDataFetching random"
  define s19 where "s19 = (load random ^^ 19) init"
  have one: "loadedCount (load random init) = 1000" "hasMore (load random init)"
    using loads_closed_form [where random = random and k = 1]
    by (simp_all add: init_def TOTAL_ROWS_def INITIAL_LOAD_COUNT_def CHUNK_SIZE_def)
  have s19: "loadedCount s19 = 10000" "\<not> hasMore s19" "\<not> isLoading s19" "awaiting s19 = 0"
    "data s19 = take 10000 (initialFullData random)"
    "\<not> captured_isLoading s19" "\<not> captured_hasMore s19"
    using loads_closed_form [where random = random and k = 19]
    by (simp_all add: s19_def init_def TOTAL_ROWS_def INITIAL_LOAD_COUNT_def CHUNK_SIZE_def)
  have all: "data s19 = initialFullData random"
    using length_initialFullData [of random] by (simp add: s19 TOTAL_ROWS_def)
  have req: "fetchMoreData s19 = s19"
    using s19 by (intro fetchMoreData_guard) simp
  have noop: "load random s19 = s19"
    using s19 by (intro load_exhausted) simp_all
  have twenty: "(load random ^^ 20) init = s19"
  proof -
    have "(load random ^^ 20) init = (load random ^^ Suc 19) init" by simp
    also have "\<dots> = load random s19"
      unfolding s19_def by (rule funpow.simps(2) [THEN fun_cong, unfolded o_apply])
    finally show ?thesis using noop by simp
  qed
  have start: "loadedCount init = 500"
    by (simp add: init_def initial_state INITIAL_LOAD_COUNT_def)
  have chunk: "data (load random (run random es)) = data (run random es)
              @ take (min CHUNK_SIZE (TOTAL_ROWS - loadedCount (run random es)))
                  (drop (loadedCount (run random es)) (initialFullData random))
      \<and> length (data (load random (run random es)))
          = length (data (run random es))
              + min CHUNK_SIZE (TOTAL_ROWS - loadedCount (run random es))
      \<and> loadedCount (load random (run random es))
          = loadedCount (run random es)
              + min CHUNK_SIZE (TOTAL_ROWS - loadedCount (run random es))"
    if idle: "\<not> isLoading (run random es)"
  proof -
    have inv: "loadedCount (run random es) \<le> TOTAL_ROWS"
      "hasMore (run random es) = (loadedCount (run random es) < TOTAL_ROWS)"
      using run_invariant [of random es] by simp_all
    note fresh = load_fresh [OF idle inv, of random]
    show ?thesis
      by (simp add: fresh length_initialFullData)
  qed
  show ?thesis
    unfolding init_def [symmetric] s19_def [symmetric] Let_def
    using start one s19(1,2) all req twenty chunk by blast
qed

theorem loading_schedule_witness:
  "\<not> isLoading (run (\<lambda>i. 0) [])
   \<and> loadedCount (load (\<lambda>i. 0) (run (\<lambda>i. 0) [])) = 1000
   \<and> length (data (load (\<lambda>i. 0) (run (\<lambda>i. 0) []))) = 1000"
  using loading_schedule [of "\<lambda>i. 0" "[]"] run_invariant [of "\<lambda>i. 0" "[]"]
  by (simp add: Let_def run_def initial_state TOTAL_ROWS_def INITIAL_LOAD_COUNT_def
        CHUNK_SIZE_def length_initialFullData)

text \<open>
  C8: a load request made while the data source is loading is a no-op, and duplicate
  requests made during one loading period append one chunk. The code does not keep to
  this. The guard of \<^verbatim>\<open>fetchMoreData\<close> reads the \<^verbatim>\<open>isLoading\<close> that the callback
  captured when it was created: a second request made through the same callback, before
  the component has rendered again, passes the guard although the first call has set
  \<^verbatim>\<open>isLoading\<close>. Two calls are then suspended, and when their timers have fired two
  chunks have been appended: the loaded count is 1500 and the rows are the first 1500 of
  the data set. With a render between the two requests the second one is refused, and one
  chunk is appended.
\<close>
theorem stale_guard_two_chunks:
  "(let s0 = useDataFetching random;
        s1 = run random [LoadRequest];
        s2 = run random [LoadRequest, LoadRequest];
        s4 = run random [LoadRequest, LoadRequest, TimerFired, TimerFired];
        r4 = run random [LoadRequest, Render, LoadRequest, TimerFired, TimerFired]
    in isLoading s1 \<and> awaiting s1 = 1
       \<and> s2 = fetchMoreData s1 \<and> s2 \<noteq> s1 \<and> awaiting s2 = 2
       \<and> loadedCount s4 = loadedCount s0 + 2 * CHUNK_SIZE
       \<and> loadedCount s4 = 1500
       \<and> data s4 = take 1500 (initialFullData random)
       \<and> length (data s4) = length (data s0) + 2 * CHUNK_SIZE
       \<and> loadedCount r4 = 1000
       \<and> data r4 = take 1000 (initialFullData random))"
proof -
  define s0 where "s0 = useDataFetching random"
  define s1 where "s1 = fetchMoreData s0"
  define s2 where "s2 = fetchMoreData s1"
  define s3 where "s3 = fetchMoreData_resume random s2"
  define s4 where "s4 = fetchMoreData_resume random s3"
  define r2 where "r2 = fetchMoreData (render s1)"
  define r3 where "r3 = fetchMoreData_resume random r2"
  define r4 where "r4 = fetchMoreData_resume random r3"
  have s0: "loadedCount s0 = 500" "data s0 = take 500 (initialFullData random)"
    "awaiting s0 = 0" "\<not> captured_isLoading s0" "captured_hasMore s0"
    by (simp_all add: s0_def initial_state INITIAL_LOAD_COUNT_def)
  have s1: "s1 = s0\<lparr>isLoading := True, awaiting := 1\<rparr>"
    by (simp add: s1_def fetchMoreData_def s0)
  have s2: "s2 = s0\<lparr>isLoading := True, awaiting := 2\<rparr>"
    by (simp add: s2_def fetchMoreData_def s1 s0)
  have ne: "s2 \<noteq> s1"
  proof
    assume "s2 = s1"
    then have "awaiting s2 = awaiting s1" by simp
    then show False by (simp add: s1 s2)
  qed
  have "0 < awaiting s2" "loadedCount s2 \<le> TOTAL_ROWS"
    by (simp_all add: s2 s0 TOTAL_ROWS_def)
  then have "s3 =
           s2\<lparr>data := data s2 @ take (min CHUNK_SIZE (TOTAL_ROWS - loadedCount s2))
                                   (drop (loadedCount s2) (initialFullData random)),
              loadedCount := loadedCount s2 + min CHUNK_SIZE (TOTAL_ROWS - loadedCount s2),
              hasMore := (loadedCount s2 + min CHUNK_SIZE (TOTAL_ROWS - loadedCount s2)
                            < TOTAL_ROWS),
              isLoading := False,
              awaiting := awaiting s2 - 1\<rparr>"
    unfolding s3_def by (rule resume_step)
  then have s3: "loadedCount s3 = 1000" "awaiting s3 = 1"
    "data s3 = take 500 (initialFullData random) @ take 500 (drop 500 (initialFullData random))"
    by (simp_all add: s2 s0 TOTAL_ROWS_def CHUNK_SIZE_def)
  have "0 < awaiting s3" "loadedCount s3 \<le> TOTAL_ROWS"
    by (simp_all add: s3 TOTAL_ROWS_def)
  then have "s4 =
           s3\<lparr>data := data s3 @ take (min CHUNK_SIZE (TOTAL_ROWS - loadedCount s3))
                                   (drop (loadedCount s3) (initialFullData random)),
              loadedCount := loadedCount s3 + min CHUNK_SIZE (TOTAL_ROWS - loadedCount s3),
              hasMore := (loadedCount s3 + min CHUNK_SIZE (TOTAL_ROWS - loadedCount s3)
                            < TOTAL_ROWS),
              isLoading := False,
              awaiting := awaiting s3 - 1\<rparr>"
    unfolding s4_def by (rule resume_step)
  then have s4': "loadedCount s4 = 1500"
    "data s4 = (take 500 (initialFullData random) @ take 500 (drop 500 (initialFullData random)))
                 @ take 500 (drop 1000 (initialFullData random))"
    by (simp_all add: s3 TOTAL_ROWS_def CHUNK_SIZE_def)
  have t1: "take 500 (initialFullData random) @ take 500 (drop 500 (initialFullData random))
              = take 1000 (initialFullData random)"
    using take_add [of 500 500 "initialFullData random"] by simp
  have t2: "take 1000 (initialFullData random) @ take 500 (drop 1000 (initialFullData random))
              = take 1500 (initialFullData random)"
    using take_add [of 1000 500 "initialFullData random"] by simp
  have s4: "loadedCount s4 = 1500" "data s4 = take 1500 (initialFullData random)"
    using s4' by (simp_all only: t1 t2)
  have r2: "r2 = render s1"
    by (simp add: r2_def fetchMoreData_def render_def s1)
  have "0 < awaiting r2" "loadedCount r2 \<le> TOTAL_ROWS"
    by (simp_all add: r2 render_def s1 s0 TOTAL_ROWS_def)
  then have "r3 =
           r2\<lparr>data := data r2 @ take (min CHUNK_SIZE (TOTAL_ROWS - loadedCount r2))
                                   (drop (loadedCount r2) (initialFullData random)),
              loadedCount := loadedCount r2 + min CHUNK_SIZE (TOTAL_ROWS - loadedCount r2),
              hasMore := (loadedCount r2 + min CHUNK_SIZE (TOTAL_ROWS - loadedCount r2)
                            < TOTAL_ROWS),
              isLoading := False,
              awaiting := awaiting r2 - 1\<rparr>"
    unfolding r3_def by (rule resume_step)
  then have r3: "loadedCount r3 = 1000" "awaiting r3 = 0"
    "data r3 = take 500 (initialFullData random) @ take 500 (drop 500 (initialFullData random))"
    by (simp_all add: r2 render_def s1 s0 TOTAL_ROWS_def CHUNK_SIZE_def)
  have "r4 = r3"
    by (simp add: r4_def fetchMoreData_resume_def r3)
  then have r4: "loadedCount r4 = 1000" "data r4 = take 1000 (initialFullData random)"
    using r3 by (simp_all only: t1)
  have len: "length (data s4) = 1500" "length (data s0) = 500"
    by (simp_all add: s4 s0 length_initialFullData TOTAL_ROWS_def)
  have runs: "run random [LoadRequest] = s1"
    "run random [LoadRequest, LoadRequest] = s2"
    "run random [LoadRequest, LoadRequest, TimerFired, TimerFired] = s4"
    "run random [LoadRequest, Render, LoadRequest, TimerFired, TimerFired] = r4"
    by (simp_all add: run_def s0_def s1_def s2_def s3_def s4_def r2_def r3_def r4_def)
  have "isLoading s1" "awaiting s1 = 1" "awaiting s2 = 2"
    by (simp_all add: s1 s2)
  then show ?thesis
    unfolding Let_def runs s0_def [symmetric]
    using ne s4 r4 len s0(1) by (simp add: s2_def CHUNK_SIZE_def)
qed

theorem stale_guard_two_chunks_witness:
  "isLoading (run (\<lambda>i. 0) [LoadRequest])
   \<and> fetchMoreData (run (\<lambda>i. 0) [LoadRequest]) \<noteq> run (\<lambda>i. 0) [LoadRequest]
   \<and> loadedCount (run (\<lambda>i. 0) [LoadRequest, LoadRequest, TimerFired, TimerFired]) = 1500
   \<and> length (data (run (\<lambda>i. 0) [LoadRequest, LoadRequest, TimerFired, TimerFired])) = 1500
   \<and> loadedCount (run (\<lambda>i. 0) [LoadRequest, Render, LoadRequest, TimerFired, TimerFired])
       = 1000"
proof -
  note two = stale_guard_two_chunks [of "\<lambda>i. 0", unfolded Let_def]
  have "fetchMoreData (run (\<lambda>i. 0) [LoadRequest]) \<noteq> run (\<lambda>i. 0) [LoadRequest]"
    using two by metis
  moreover have "length (data (run (\<lambda>i. 0) [LoadRequest, LoadRequest, TimerFired, TimerFired]))
                   = 1500"
    using two by (simp add: length_initialFullData TOTAL_ROWS_def)
  ultimately show ?thesis
    using two by blast
qed

text \<open>
  C10: \<open>hasMore\<close> is true exactly when the loaded count is below TOTAL_ROWS, at
  initialisation and in every state the data source reaches afterwards; hence
  \<open>hasMore\<close> turns false in the very load that brings the count to TOTAL_ROWS. Once
  false it stays false, whatever happens next.
\<close>
theorem hasMore_invariant:
  "hasMore (useDataFetching random) = (loadedCount (useDataFetching random) < TOTAL_ROWS)
   \<and> hasMore (run random es) = (loadedCount (run random es) < TOTAL_ROWS)
   \<and> loadedCount (run random es) \<le> TOTAL_ROWS
   \<and> (\<not> hasMore (run random es) \<longrightarrow> \<not> hasMore (run random (es @ es')))"
proof -
  have init: "hasMore (useDataFetching random)
                = (loadedCount (useDataFetching random) < TOTAL_ROWS)"
    by (simp add: initial_state TOTAL_ROWS_def INITIAL_LOAD_COUNT_def)
  have inv: "hasMore (run random es) = (loadedCount (run random es) < TOTAL_ROWS)"
    "loadedCount (run random es) \<le> TOTAL_ROWS"
    using run_invariant [of random es] by simp_all
  have inv': "hasMore (run random (es @ es'))
                = (loadedCount (run random (es @ es')) < TOTAL_ROWS)"
    using run_invariant [of random "es @ es'"] by simp
  have "\<not> hasMore (run random (es @ es'))" if "\<not> hasMore (run random es)"
    using that loadedCount_mono [of random es es'] unfolding inv inv' by linarith
  with init inv show ?thesis by blast
qed

theorem hasMore_invariant_witness:
  "\<not> hasMore (run (\<lambda>i. 0) (concat (replicate 19 [Render, LoadRequest, TimerFired, Render])))
   \<and> loadedCount (run (\<lambda>i. 0) (concat (replicate 19 [Render, LoadRequest, TimerFired, Render])))
       = TOTAL_ROWS
   \<and> \<not> hasMore (run (\<lambda>i. 0)
          (concat (replicate 19 [Render, LoadRequest, TimerFired, Render])
             @ [LoadRequest, LoadRequest, TimerFired]))"
  using hasMore_invariant [of "\<lambda>i. 0"
      "concat (replicate 19 [Render, LoadRequest, TimerFired, Render])"
      "[LoadRequest, LoadRequest, TimerFired]"]
    loads_closed_form [where random = "\<lambda>i. 0" and k = 19]
  by (simp only: run_loads) (simp add: TOTAL_ROWS_def INITIAL_LOAD_COUNT_def CHUNK_SIZE_def)

end
